theory Spec2Isabelle
  imports Main "HOL-Library.Word"
begin

unbundle bit_operations_syntax

section \<open>Machine types and kernel faults\<close>

text \<open>
  The target is arm64: \<open>int\<close> and \<open>unsigned int\<close> are 32-bit words, \<open>long\<close> and
  \<open>unsigned long\<close> are 64-bit words. Arithmetic on words wraps; a signed C value is
  read with \<open>sint\<close> and compared with \<open><s\<close>.
\<close>

type_synonym c_int = "32 word"
type_synonym c_uint = "32 word"
type_synonym c_long = "64 word"
type_synonym c_ulong = "64 word"

text \<open>
  A fault is a point where the kernel stops instead of returning: a \<open>BUG_ON\<close> that
  fires, or a read through a pointer that does not point at an object.
\<close>

datatype fault =
    BUG_ON_pool
  | BUG_ON_high_count
  | BUG_ON_low_count
  | EMPTY_LIST_ENTRY
  | NULL_DEREF
  | BAD_INDEX

text \<open>The error numbers the two files return through \<open>ERR_PTR\<close>.\<close>

datatype errno = EINTR | ENOMEM | EINVAL

section \<open>drivers/devfreq/devfreq_boost.c\<close>

subsection \<open>Data\<close>

text \<open>The anonymous enum of bit numbers in \<open>boost_dev.state\<close>.\<close>

definition SCREEN_OFF :: nat where "SCREEN_OFF = 0"
definition INPUT_BOOST :: nat where "INPUT_BOOST = 1"
definition MAX_BOOST :: nat where "MAX_BOOST = 2"

text \<open>
  Modelled from the spec: the kernel's \<open>set_bit\<close> on one \<open>unsigned long\<close>, whose code
  is outside the two source files (\<open>state\<close> is a bitset "mutated only via atomic
  set/clear; read by worker and producers"). The name carries a suffix because
  \<open>set_bit\<close> is a constant of the library.
\<close>

definition set_bit_k :: "nat \<Rightarrow> c_ulong \<Rightarrow> c_ulong" where
  "set_bit_k nr w = w OR push_bit nr 1"

text \<open>Modelled from the spec: the kernel's \<open>clear_bit\<close>, the atomic clear of one bit.\<close>

definition clear_bit :: "nat \<Rightarrow> c_ulong \<Rightarrow> c_ulong" where
  "clear_bit nr w = w AND NOT (push_bit nr 1)"

text \<open>Modelled from the spec: the kernel's \<open>test_bit\<close>, the read of one bit.\<close>

definition test_bit :: "nat \<Rightarrow> c_ulong \<Rightarrow> bool" where
  "test_bit nr w = (w AND push_bit nr 1 \<noteq> 0)"

text \<open>
  Modelled from the spec: the governor object (\<open>struct devfreq\<close>), of which the
  boost code reads \<open>max_frequency\<close> and \<open>frequency_table[0]\<close> and writes the minimum
  frequency, followed by \<open>recompute()\<close> (\<open>update_devfreq\<close>); \<open>recomputes\<close> counts
  these calls. \<open>freq_table\<close> is \<open>profile->freq_table\<close>.
\<close>

record devfreq =
  min_freq :: c_ulong
  max_freq :: c_ulong
  freq_table :: "c_ulong list"
  is_boost_device :: bool
  recomputes :: nat

text \<open>
  Modelled from the spec: \<open>update_devfreq\<close>, the governor's \<open>recompute()\<close>; the model
  records that it was called.
\<close>

definition update_devfreq :: "devfreq \<Rightarrow> devfreq" where
  "update_devfreq d = d\<lparr>recomputes := Suc (recomputes d)\<rparr>"

text \<open>
  \<open>struct boost_dev\<close>. \<open>df\<close> is a pointer that is NULL until the device is
  registered. \<open>unboost\<close> is the delayed work: \<open>None\<close> when idle, \<open>Some d\<close> when it is
  pending with its timer armed \<open>d\<close> jiffies ahead. \<open>boost_waitq\<close> counts the
  \<open>wake_up\<close> calls made on the wait queue.
\<close>

record boost_dev =
  df :: "devfreq option"
  unboost :: "c_ulong option"
  boost_waitq :: nat
  boost_freq :: c_ulong
  state :: c_ulong

text \<open>
  The configuration constants and \<open>msecs_to_jiffies\<close> come from the kernel
  configuration and headers; they are parameters of the model.
\<close>

record boost_config =
  CONFIG_DEVFREQ_INPUT_BOOST_DURATION_MS :: c_int
  CONFIG_DEVFREQ_INPUT_BOOST_MAX_DURATION_MS :: c_int
  msecs_to_jiffies :: "c_uint \<Rightarrow> c_ulong"

text \<open>\<open>struct df_boost_drv\<close>: the fixed array of devices.\<close>

record df_boost_drv =
  devices :: "boost_dev list"

text \<open>\<open>BOOST_DEV_INIT\<close>: the static initialiser of one device slot.\<close>

definition BOOST_DEV_INIT :: "c_ulong \<Rightarrow> boost_dev" where
  "BOOST_DEV_INIT freq =
     \<lparr>df = None, unboost = None, boost_waitq = 0, boost_freq = freq, state = 0\<rparr>"

text \<open>
  Modelled from the spec: the reschedulable timer ("reschedule if pending, else arm
  fresh"). \<open>mod_delayed_work\<close> returns whether the work was already pending and leaves
  it pending with the new delay.
\<close>

definition mod_delayed_work :: "c_ulong option \<Rightarrow> c_ulong \<Rightarrow> bool \<times> c_ulong option" where
  "mod_delayed_work dwork delay = (dwork \<noteq> None, Some delay)"

text \<open>
  Modelled from the spec: \<open>wake_up\<close> on the device's wait queue, the "wake condition"
  signalled to the worker; the model counts the calls.
\<close>

definition wake_up :: "boost_dev \<Rightarrow> boost_dev" where
  "wake_up b = b\<lparr>boost_waitq := Suc (boost_waitq b)\<rparr>"

subsection \<open>Operations\<close>

text \<open>
  \<open>__devfreq_boost_kick\<close> (a name cannot begin with an underscore here): the kick
  of one device.
\<close>

definition devfreq_boost_kick_dev :: "boost_config \<Rightarrow> boost_dev \<Rightarrow> bool \<Rightarrow> boost_dev" where
  "devfreq_boost_kick_dev cfg b max_req =
     (if df b = None \<or> test_bit SCREEN_OFF (state b) then b
      else
        let (b1, input_boost_duration) =
              (if max_req
               then (b\<lparr>state := clear_bit INPUT_BOOST (set_bit_k MAX_BOOST (state b))\<rparr>,
                     CONFIG_DEVFREQ_INPUT_BOOST_MAX_DURATION_MS cfg)
               else (b\<lparr>state := set_bit_k INPUT_BOOST (state b)\<rparr>,
                     CONFIG_DEVFREQ_INPUT_BOOST_DURATION_MS cfg));
            (pending, dwork) =
              mod_delayed_work (unboost b1) (msecs_to_jiffies cfg input_boost_duration);
            b2 = b1\<lparr>unboost := dwork\<rparr>
        in if \<not> pending then wake_up b2 else b2)"

text \<open>
  \<open>devfreq_boost_kick\<close>: \<open>d->devices + device\<close>. An index outside the array is a
  wild pointer in C; the model stops there.
\<close>

definition devfreq_boost_kick ::
  "boost_config \<Rightarrow> df_boost_drv \<Rightarrow> nat \<Rightarrow> bool \<Rightarrow> fault + df_boost_drv" where
  "devfreq_boost_kick cfg d device max_req =
     (if device < length (devices d)
      then Inr (d\<lparr>devices := (devices d)[device := devfreq_boost_kick_dev cfg (devices d ! device) max_req]\<rparr>)
      else Inl BAD_INDEX)"

definition devfreq_register_boost_device ::
  "df_boost_drv \<Rightarrow> nat \<Rightarrow> devfreq \<Rightarrow> fault + df_boost_drv" where
  "devfreq_register_boost_device d device dfq =
     (if device < length (devices d)
      then Inr (d\<lparr>devices := (devices d)[device :=
                 (devices d ! device)\<lparr>df := Some (dfq\<lparr>is_boost_device := True\<rparr>)\<rparr>]\<rparr>)
      else Inl BAD_INDEX)"

text \<open>
  \<open>devfreq_unboost\<close> is the work function: when it runs the work is no longer
  pending.
\<close>

definition devfreq_unboost :: "boost_dev \<Rightarrow> boost_dev" where
  "devfreq_unboost b =
     wake_up (b\<lparr>unboost := None,
               state := clear_bit INPUT_BOOST (clear_bit MAX_BOOST (state b))\<rparr>)"

text \<open>
  \<open>freq_table[0]\<close>: a read of the first entry of the table. A table without
  entries has no first entry; the model stops there.
\<close>

definition freq_table_0 :: "devfreq \<Rightarrow> fault + c_ulong" where
  "freq_table_0 d = (case freq_table d of [] \<Rightarrow> Inl BAD_INDEX | f # _ \<Rightarrow> Inr f)"

text \<open>
  \<open>devfreq_update_boosts\<close> reads through \<open>b->df\<close>, so a device that is not
  registered stops the model. The governor's mutex is held around the update; it is
  not a field of the model.
\<close>

definition devfreq_update_boosts :: "boost_dev \<Rightarrow> c_ulong \<Rightarrow> fault + boost_dev" where
  "devfreq_update_boosts b st =
     (case df b of
        None \<Rightarrow> Inl NULL_DEREF
      | Some d \<Rightarrow>
          (case (if test_bit SCREEN_OFF st then freq_table_0 d
                 else if test_bit MAX_BOOST st then Inr (max_freq d)
                 else (if test_bit INPUT_BOOST st
                       then Inr (min (boost_freq b) (max_freq d))
                       else freq_table_0 d)) of
             Inl f \<Rightarrow> Inl f
           | Inr freq \<Rightarrow> Inr (b\<lparr>df := Some (update_devfreq (d\<lparr>min_freq := freq\<rparr>))\<rparr>)))"

text \<open>
  One pass of the loop of \<open>devfreq_boost_thread\<close>, from the \<open>wait_event\<close> on. The
  condition reads the state first: when it differs from \<open>old_state\<close> the stop request
  is not looked at and the boosts are updated; otherwise a stop request ends the
  thread, and without one the thread sleeps on.
\<close>

datatype thread_pass =
    Sleeping
  | Stopped
  | Updated "fault + boost_dev" c_ulong

definition devfreq_boost_thread_pass :: "boost_dev \<Rightarrow> c_ulong \<Rightarrow> bool \<Rightarrow> thread_pass" where
  "devfreq_boost_thread_pass b old_state kthread_should_stop =
     (let curr_state = state b in
      if curr_state \<noteq> old_state then Updated (devfreq_update_boosts b curr_state) curr_state
      else if kthread_should_stop then Stopped
      else Sleeping)"

text \<open>
  \<open>msm_drm_notifier_cb\<close> for an early blank event, on every device: unblank clears
  \<open>SCREEN_OFF\<close>, anything else sets it and wakes the worker.
\<close>

definition drm_blank_dev :: "bool \<Rightarrow> boost_dev \<Rightarrow> boost_dev" where
  "drm_blank_dev unblank b =
     (if unblank then b\<lparr>state := clear_bit SCREEN_OFF (state b)\<rparr>
      else wake_up (b\<lparr>state := set_bit_k SCREEN_OFF (state b)\<rparr>))"

definition msm_drm_notifier_cb :: "df_boost_drv \<Rightarrow> bool \<Rightarrow> bool \<Rightarrow> df_boost_drv" where
  "msm_drm_notifier_cb d early_event_blank unblank =
     (if \<not> early_event_blank then d
      else d\<lparr>devices := map (drm_blank_dev unblank) (devices d)\<rparr>)"

definition devfreq_boost_input_event :: "boost_config \<Rightarrow> df_boost_drv \<Rightarrow> df_boost_drv" where
  "devfreq_boost_input_event cfg d =
     d\<lparr>devices := map (\<lambda>b. devfreq_boost_kick_dev cfg b False) (devices d)\<rparr>"

text \<open>The events that reach one device, and a run of them in order.\<close>

datatype boost_event =
    Kick bool
  | Unboost_fires
  | Screen_off
  | Screen_on
  | Register devfreq

fun boost_step :: "boost_config \<Rightarrow> boost_dev \<Rightarrow> boost_event \<Rightarrow> boost_dev" where
  "boost_step cfg b (Kick max_req) = devfreq_boost_kick_dev cfg b max_req"
| "boost_step cfg b Unboost_fires = devfreq_unboost b"
| "boost_step cfg b Screen_off = drm_blank_dev False b"
| "boost_step cfg b Screen_on = drm_blank_dev True b"
| "boost_step cfg b (Register dfq) = b\<lparr>df := Some (dfq\<lparr>is_boost_device := True\<rparr>)\<rparr>"

definition boost_run :: "boost_config \<Rightarrow> boost_dev \<Rightarrow> boost_event list \<Rightarrow> boost_dev" where
  "boost_run cfg b evs = foldl (boost_step cfg) b evs"

section \<open>drivers/staging/android/ion/ion_page_pool.c\<close>

subsection \<open>Data\<close>

text \<open>
  Modelled from the spec: a pool entry is an "opaque externally-allocated memory
  unit"; the pool only chains it and asks for its tier (\<open>PageHighMem\<close>) and its
  memory node (\<open>page_pgdat\<close>). \<open>pfn\<close> tells pages apart.
\<close>

record page =
  pfn :: nat
  PageHighMem :: bool
  page_pgdat :: nat

text \<open>
  \<open>struct ion_page_pool\<close> (declared in \<open>ion.h\<close>). The two \<open>list_head\<close>s are the
  sequences of their entries, first entry first. The spinlock is not a field of the
  model: a \<open>spin_trylock\<close> succeeds or fails as its caller's \<open>trylock\<close> argument says,
  and a \<open>spin_lock\<close> returns with the lock held. \<open>list_prio\<close> is the priority given to
  the \<open>plist_node\<close>.
\<close>

record ion_page_pool =
  high_count :: c_int
  low_count :: c_int
  high_items :: "page list"
  low_items :: "page list"
  gfp_mask :: c_uint
  order :: c_uint
  cached :: bool
  list_prio :: c_int

text \<open>
  The calling context (\<open>current\<close>): whether a fatal signal is pending on it and
  whether it is the kswapd thread.
\<close>

record task =
  fatal_signal_pending :: bool
  current_is_kswapd :: bool

text \<open>
  The kernel state outside the pool that the file touches: its own counter
  \<open>nr_total_pages\<close> (a \<open>static long\<close>), the per-node counter
  \<open>NR_INDIRECTLY_RECLAIMABLE_BYTES\<close> (one value per memory node), and the page
  allocator, of which \<open>buddy\<close> holds the pages it can hand out.
\<close>

record kstate =
  nr_total_pages :: c_long
  node_reclaimable_bytes :: "nat \<Rightarrow> c_long"
  buddy :: "page list"

text \<open>
  \<open>__GFP_HIGHMEM\<close> and \<open>PAGE_SHIFT\<close> are constants of the kernel headers and
  configuration; they are parameters of the model.
\<close>

record mm_config =
  GFP_HIGHMEM :: c_uint
  PAGE_SHIFT :: nat

text \<open>
  Modelled from the spec: \<open>alloc_pages\<close>, the raw allocator's
  "allocate(order, flags) -> Entry | null". It takes the first page the allocator
  holds and yields NULL when it holds none; flags and order do not select.
\<close>

definition alloc_pages :: "c_uint \<Rightarrow> c_uint \<Rightarrow> kstate \<Rightarrow> page option \<times> kstate" where
  "alloc_pages gfp_flags ordr ks =
     (case buddy ks of
        [] \<Rightarrow> (None, ks)
      | pg # rest \<Rightarrow> (Some pg, ks\<lparr>buddy := rest\<rparr>))"

text \<open>
  Modelled from the spec: \<open>__free_pages\<close>, the raw allocator's
  "release(entry, order)". The page goes to the end of what the allocator holds, so
  \<open>buddy\<close> also records the order in which pages were released.
\<close>

definition free_pages :: "page \<Rightarrow> c_uint \<Rightarrow> kstate \<Rightarrow> kstate" where
  "free_pages pg ordr ks = ks\<lparr>buddy := buddy ks @ [pg]\<rparr>"

text \<open>
  \<open>mod_node_page_state\<close> on \<open>NR_INDIRECTLY_RECLAIMABLE_BYTES\<close>: the counter of the
  page's node moves by \<open>delta\<close>. The statistic lies outside the pool; it is carried
  so that the frame properties below speak about it too.
\<close>

definition mod_node_page_state :: "nat \<Rightarrow> c_long \<Rightarrow> kstate \<Rightarrow> kstate" where
  "mod_node_page_state node delta ks =
     ks\<lparr>node_reclaimable_bytes :=
          (node_reclaimable_bytes ks)(node := node_reclaimable_bytes ks node + delta)\<rparr>"

text \<open>
  \<open>1 << n\<close> on the C type \<open>int\<close>, and the conversion of an \<open>int\<close> to \<open>long\<close>
  (sign extension) where the file adds one to a \<open>long\<close>. For \<open>n = 31\<close> the shift
  yields \<open>INT_MIN\<close>, and from 32 on C leaves it undefined (here it is 0); the
  theorems that depend on its value assume an order below 31.
\<close>

definition shl1 :: "nat \<Rightarrow> c_int" where
  "shl1 n = push_bit n 1"

definition int_to_long :: "c_int \<Rightarrow> c_long" where
  "int_to_long x = scast x"

subsection \<open>Operations\<close>

definition ion_page_pool_alloc_pages :: "ion_page_pool \<Rightarrow> kstate \<Rightarrow> page option \<times> kstate" where
  "ion_page_pool_alloc_pages pool ks = alloc_pages (gfp_mask pool) (order pool) ks"

definition ion_page_pool_free_pages :: "ion_page_pool \<Rightarrow> page \<Rightarrow> kstate \<Rightarrow> kstate" where
  "ion_page_pool_free_pages pool pg ks = free_pages pg (order pool) ks"

definition ion_page_pool_add ::
  "mm_config \<Rightarrow> ion_page_pool \<Rightarrow> page \<Rightarrow> kstate \<Rightarrow> c_int \<times> ion_page_pool \<times> kstate" where
  "ion_page_pool_add cfg pool pg ks =
     (let pool1 =
            (if PageHighMem pg
             then pool\<lparr>high_items := high_items pool @ [pg],
                       high_count := high_count pool + 1\<rparr>
             else pool\<lparr>low_items := low_items pool @ [pg],
                       low_count := low_count pool + 1\<rparr>);
          ks1 = ks\<lparr>nr_total_pages :=
                    nr_total_pages ks + int_to_long (shl1 (unat (order pool)))\<rparr>;
          ks2 = mod_node_page_state (page_pgdat pg)
                  (int_to_long (shl1 (PAGE_SHIFT cfg + unat (order pool)))) ks1
      in (0, pool1, ks2))"

text \<open>
  \<open>ion_page_pool_remove\<close>. \<open>list_first_entry\<close> of an empty list is not an entry;
  the model stops there with \<open>EMPTY_LIST_ENTRY\<close>.
\<close>

definition ion_page_pool_remove ::
  "mm_config \<Rightarrow> ion_page_pool \<Rightarrow> bool \<Rightarrow> kstate \<Rightarrow> fault + (page \<times> ion_page_pool \<times> kstate)" where
  "ion_page_pool_remove cfg pool high ks =
     (case (if high
            then (if high_count pool = 0 then Inl BUG_ON_high_count
                  else (case high_items pool of
                          [] \<Rightarrow> Inl EMPTY_LIST_ENTRY
                        | pg # rest \<Rightarrow>
                            Inr (pg, pool\<lparr>high_count := high_count pool - 1,
                                         high_items := rest\<rparr>)))
            else (if low_count pool = 0 then Inl BUG_ON_low_count
                  else (case low_items pool of
                          [] \<Rightarrow> Inl EMPTY_LIST_ENTRY
                        | pg # rest \<Rightarrow>
                            Inr (pg, pool\<lparr>low_count := low_count pool - 1,
                                         low_items := rest\<rparr>)))) of
        Inl f \<Rightarrow> Inl f
      | Inr (pg, pool1) \<Rightarrow>
          (let ks1 = ks\<lparr>nr_total_pages :=
                        nr_total_pages ks - int_to_long (shl1 (unat (order pool1)))\<rparr>;
               ks2 = mod_node_page_state (page_pgdat pg)
                       (int_to_long (- shl1 (PAGE_SHIFT cfg + unat (order pool1)))) ks1
           in Inr (pg, pool1, ks2)))"

text \<open>
  \<open>ion_page_pool_alloc\<close>. The result is the returned pointer (a page, or an
  \<open>ERR_PTR\<close>), the value left in \<open>*from_pool\<close>, the pool and the kernel state.
  \<open>trylock\<close> is the outcome a \<open>spin_trylock\<close> would have; it is asked for only when
  \<open>*from_pool\<close> is set.
\<close>

definition ion_page_pool_alloc ::
  "mm_config \<Rightarrow> task \<Rightarrow> bool \<Rightarrow> ion_page_pool option \<Rightarrow> bool \<Rightarrow> kstate \<Rightarrow>
     fault + ((errno + page) \<times> bool \<times> ion_page_pool \<times> kstate)" where
  "ion_page_pool_alloc cfg cur trylock pool_ptr from_pool ks =
     (case pool_ptr of
        None \<Rightarrow> Inl BUG_ON_pool
      | Some pool \<Rightarrow>
          if fatal_signal_pending cur then Inr (Inl EINTR, from_pool, pool, ks)
          else
            (case (if from_pool \<and> trylock
                   then (if high_count pool \<noteq> 0
                         then (case ion_page_pool_remove cfg pool True ks of
                                 Inl f \<Rightarrow> Inl f
                               | Inr (pg, pool1, ks1) \<Rightarrow> Inr (Some pg, pool1, ks1))
                         else if low_count pool \<noteq> 0
                         then (case ion_page_pool_remove cfg pool False ks of
                                 Inl f \<Rightarrow> Inl f
                               | Inr (pg, pool1, ks1) \<Rightarrow> Inr (Some pg, pool1, ks1))
                         else Inr (None, pool, ks))
                   else Inr (None, pool, ks)) of
               Inl f \<Rightarrow> Inl f
             | Inr (Some pg, pool1, ks1) \<Rightarrow> Inr (Inr pg, from_pool, pool1, ks1)
             | Inr (None, pool1, ks1) \<Rightarrow>
                 (case ion_page_pool_alloc_pages pool1 ks1 of
                    (None, ks2) \<Rightarrow> Inr (Inl ENOMEM, False, pool1, ks2)
                  | (Some pg, ks2) \<Rightarrow> Inr (Inr pg, False, pool1, ks2))))"

text \<open>
  \<open>ion_page_pool_alloc_pool_only\<close>: a NULL pool is answered with
  \<open>ERR_PTR(-EINVAL)\<close>, and there is no pool to hand back.
\<close>

definition ion_page_pool_alloc_pool_only ::
  "mm_config \<Rightarrow> bool \<Rightarrow> ion_page_pool option \<Rightarrow> kstate \<Rightarrow>
     fault + ((errno + page) \<times> ion_page_pool option \<times> kstate)" where
  "ion_page_pool_alloc_pool_only cfg trylock pool_ptr ks =
     (case pool_ptr of
        None \<Rightarrow> Inr (Inl EINVAL, None, ks)
      | Some pool \<Rightarrow>
          (case (if trylock
                 then (if high_count pool \<noteq> 0
                       then (case ion_page_pool_remove cfg pool True ks of
                               Inl f \<Rightarrow> Inl f
                             | Inr (pg, pool1, ks1) \<Rightarrow> Inr (Some pg, pool1, ks1))
                       else if low_count pool \<noteq> 0
                       then (case ion_page_pool_remove cfg pool False ks of
                               Inl f \<Rightarrow> Inl f
                             | Inr (pg, pool1, ks1) \<Rightarrow> Inr (Some pg, pool1, ks1))
                       else Inr (None, pool, ks))
                 else Inr (None, pool, ks)) of
             Inl f \<Rightarrow> Inl f
           | Inr (None, pool1, ks1) \<Rightarrow> Inr (Inl ENOMEM, Some pool1, ks1)
           | Inr (Some pg, pool1, ks1) \<Rightarrow> Inr (Inr pg, Some pool1, ks1)))"

definition ion_page_pool_free ::
  "mm_config \<Rightarrow> ion_page_pool \<Rightarrow> page \<Rightarrow> kstate \<Rightarrow> ion_page_pool \<times> kstate" where
  "ion_page_pool_free cfg pool pg ks = snd (ion_page_pool_add cfg pool pg ks)"

definition ion_page_pool_free_immediate :: "ion_page_pool \<Rightarrow> page \<Rightarrow> kstate \<Rightarrow> kstate" where
  "ion_page_pool_free_immediate pool pg ks = ion_page_pool_free_pages pool pg ks"

definition ion_page_pool_total :: "ion_page_pool \<Rightarrow> bool \<Rightarrow> c_int" where
  "ion_page_pool_total pool high =
     (let count = low_count pool;
          count = (if high then count + high_count pool else count)
      in push_bit (unat (order pool)) count)"

text \<open>
  \<open>ion_page_pool_nr_pages\<close>: the value returned and the state, in which a negative
  counter has been overwritten with 0.
\<close>

definition ion_page_pool_nr_pages :: "kstate \<Rightarrow> c_long \<times> kstate" where
  "ion_page_pool_nr_pages ks =
     (let ks1 = (if nr_total_pages ks <s 0 then ks\<lparr>nr_total_pages := 0\<rparr> else ks)
      in (nr_total_pages ks1, ks1))"

text \<open>
  The \<open>while\<close> loop of \<open>ion_page_pool_shrink\<close>, with \<open>freed\<close> as its accumulator.
  Each pass takes the pool's lock, tests and pops under it, releases it and then
  hands the page to the page allocator; other contexts are not interleaved here.
  Each pass that goes on takes one entry off a list and lowers that list's count, so
  the two counts, read as unsigned numbers, bound the passes.
\<close>

function shrink_loop ::
  "mm_config \<Rightarrow> bool \<Rightarrow> c_int \<Rightarrow> c_int \<Rightarrow> ion_page_pool \<Rightarrow> kstate \<Rightarrow>
     fault + (c_int \<times> ion_page_pool \<times> kstate)" where
  "shrink_loop cfg high nr_to_scan freed pool ks =
     (if freed <s nr_to_scan
      then (if low_count pool \<noteq> 0
            then (case ion_page_pool_remove cfg pool False ks of
                    Inl f \<Rightarrow> Inl f
                  | Inr (pg, pool1, ks1) \<Rightarrow>
                      shrink_loop cfg high nr_to_scan (freed + shl1 (unat (order pool1)))
                        pool1 (ion_page_pool_free_pages pool1 pg ks1))
            else if high \<and> high_count pool \<noteq> 0
            then (case ion_page_pool_remove cfg pool True ks of
                    Inl f \<Rightarrow> Inl f
                  | Inr (pg, pool1, ks1) \<Rightarrow>
                      shrink_loop cfg high nr_to_scan (freed + shl1 (unat (order pool1)))
                        pool1 (ion_page_pool_free_pages pool1 pg ks1))
            else Inr (freed, pool, ks))
      else Inr (freed, pool, ks))"
  by pat_completeness auto

termination
proof (relation "measure (\<lambda>(cfg, high, nr_to_scan, freed, pool, ks).
                   unat (low_count pool) + unat (high_count pool))", goal_cases)
  case 1
  show ?case by simp
next
  case (2 cfg high nr_to_scan freed pool ks r pg pks pool1 ks1)
  then have "low_count pool1 = low_count pool - 1" "high_count pool1 = high_count pool"
    by (auto simp: ion_page_pool_remove_def Let_def split: if_splits list.splits)
  moreover from 2 have "0 < unat (low_count pool)"
    by (simp add: unat_gt_0)
  ultimately show ?case
    using 2 by (simp add: unat_minus_one)
next
  case (3 cfg high nr_to_scan freed pool ks r pg pks pool1 ks1)
  then have "high_count pool1 = high_count pool - 1" "low_count pool1 = low_count pool"
    by (auto simp: ion_page_pool_remove_def Let_def split: if_splits list.splits)
  moreover from 3 have "0 < unat (high_count pool)"
    by (simp add: unat_gt_0)
  ultimately show ?case
    using 3 by (simp add: unat_minus_one)
qed

declare shrink_loop.simps [simp del]

definition ion_page_pool_shrink ::
  "mm_config \<Rightarrow> task \<Rightarrow> ion_page_pool \<Rightarrow> c_uint \<Rightarrow> c_int \<Rightarrow> kstate \<Rightarrow>
     fault + (c_int \<times> ion_page_pool \<times> kstate)" where
  "ion_page_pool_shrink cfg cur pool gfp_flags nr_to_scan ks =
     (let high = (if current_is_kswapd cur then True
                  else (gfp_flags AND GFP_HIGHMEM cfg) \<noteq> 0)
      in if nr_to_scan = 0 then Inr (ion_page_pool_total pool high, pool, ks)
         else shrink_loop cfg high nr_to_scan 0 pool ks)"

text \<open>
  \<open>ion_page_pool_create\<close>. \<open>kmalloc\<close> yields NULL or memory whose content is
  whatever it was (\<open>raw\<close>); \<open>cached\<close> is written only when the argument is true.
\<close>

definition ion_page_pool_create ::
  "ion_page_pool option \<Rightarrow> c_uint \<Rightarrow> c_uint \<Rightarrow> bool \<Rightarrow> ion_page_pool option" where
  "ion_page_pool_create kmalloc gfp_flags ordr cached_arg =
     (case kmalloc of
        None \<Rightarrow> None
      | Some raw \<Rightarrow>
          Some (raw\<lparr>high_count := 0, low_count := 0, low_items := [], high_items := [],
                    gfp_mask := gfp_flags, order := ordr, list_prio := ordr,
                    cached := (if cached_arg then True else cached raw)\<rparr>))"

section \<open>Well-formed pools, runs of operations and sample data\<close>

text \<open>
  The invariant of the data model: each count is the length of its list. The counts
  are C \<open>int\<close>s; read as unsigned numbers they agree with the lengths as long as a
  list has fewer than \<open>2 ^ 32\<close> entries.
\<close>

definition pool_wf :: "ion_page_pool \<Rightarrow> bool" where
  "pool_wf pool =
     (unat (high_count pool) = length (high_items pool) \<and>
      unat (low_count pool) = length (low_items pool))"

text \<open>
  The entries a shrink may take, in the order it takes them: the low list, then the
  high list when the caller may reclaim high memory. \<open>pool_after_evictions k\<close> is
  the pool with the first \<open>k\<close> of them gone.
\<close>

definition eligible :: "ion_page_pool \<Rightarrow> bool \<Rightarrow> page list" where
  "eligible pool high = low_items pool @ (if high then high_items pool else [])"

definition pool_after_evictions :: "nat \<Rightarrow> ion_page_pool \<Rightarrow> ion_page_pool" where
  "pool_after_evictions k pool =
     pool\<lparr>low_count := low_count pool - of_nat (min k (length (low_items pool))),
          low_items := drop k (low_items pool),
          high_count := high_count pool - of_nat (k - length (low_items pool)),
          high_items := drop (k - length (low_items pool)) (high_items pool)\<rparr>"

text \<open>
  \<open>n\<close> rounded up to the next multiple of \<open>unit\<close>, and the number of units in it.
\<close>

definition round_up :: "int \<Rightarrow> int \<Rightarrow> int" where
  "round_up unit n = ((n + unit - 1) div unit) * unit"

definition passes_needed :: "int \<Rightarrow> int \<Rightarrow> nat" where
  "passes_needed unit n = nat ((n + unit - 1) div unit)"

text \<open>A run of \<open>ion_page_pool_free\<close> calls, one per page, in the order of the list.\<close>

definition ion_page_pool_free_all ::
  "mm_config \<Rightarrow> ion_page_pool \<Rightarrow> kstate \<Rightarrow> page list \<Rightarrow> ion_page_pool \<times> kstate" where
  "ion_page_pool_free_all cfg pool ks pgs =
     foldl (\<lambda>(p, k) pg. ion_page_pool_free cfg p pg k) (pool, ks) pgs"

text \<open>
  Of the pages freed in the order of the list: the first high page, or without a
  high page the first low page.
\<close>

definition oldest_of_highest_tier :: "page list \<Rightarrow> page option" where
  "oldest_of_highest_tier pgs =
     (case filter PageHighMem pgs of
        h # _ \<Rightarrow> Some h
      | [] \<Rightarrow> (case filter (\<lambda>pg. \<not> PageHighMem pg) pgs of
                 l # _ \<Rightarrow> Some l
               | [] \<Rightarrow> None))"

text \<open>A sequence of adds and removes on one pool; it ends at the first fault.\<close>

datatype pool_op = Op_add page | Op_remove bool

fun pool_run ::
  "mm_config \<Rightarrow> pool_op list \<Rightarrow> ion_page_pool \<Rightarrow> kstate \<Rightarrow>
     fault + (ion_page_pool \<times> kstate)" where
  "pool_run cfg [] pool ks = Inr (pool, ks)"
| "pool_run cfg (Op_add pg # ops) pool ks =
     (case ion_page_pool_add cfg pool pg ks of
        (_, pool1, ks1) \<Rightarrow> pool_run cfg ops pool1 ks1)"
| "pool_run cfg (Op_remove high # ops) pool ks =
     (case ion_page_pool_remove cfg pool high ks of
        Inl f \<Rightarrow> Inl f
      | Inr (_, pool1, ks1) \<Rightarrow> pool_run cfg ops pool1 ks1)"

fun is_add :: "pool_op \<Rightarrow> bool" where
  "is_add (Op_add _) = True"
| "is_add (Op_remove _) = False"

text \<open>
  Whether a sequence of adds and removes can run on a pool whose lists have the two
  given lengths: every remove finds an entry in its list, and no list grows to
  \<open>2 ^ 32\<close> entries.
\<close>

fun ops_fit :: "nat \<Rightarrow> nat \<Rightarrow> pool_op list \<Rightarrow> bool" where
  "ops_fit nhigh nlow [] = True"
| "ops_fit nhigh nlow (Op_add pg # ops) =
     (if PageHighMem pg then Suc nhigh < 2 ^ 32 \<and> ops_fit (Suc nhigh) nlow ops
      else Suc nlow < 2 ^ 32 \<and> ops_fit nhigh (Suc nlow) ops)"
| "ops_fit nhigh nlow (Op_remove high # ops) =
     (if high then 0 < nhigh \<and> ops_fit (nhigh - 1) nlow ops
      else 0 < nlow \<and> ops_fit nhigh (nlow - 1) ops)"

text \<open>
  \<open>n\<close> calls of \<open>ion_page_pool_alloc\<close> in a row, each with \<open>*from_pool\<close> set and the
  lock free; the results are the returned pointers with the value left in
  \<open>*from_pool\<close>, in the order of the calls.
\<close>

fun alloc_run ::
  "mm_config \<Rightarrow> task \<Rightarrow> nat \<Rightarrow> ion_page_pool \<Rightarrow> kstate \<Rightarrow>
     fault + (((errno + page) \<times> bool) list \<times> ion_page_pool \<times> kstate)" where
  "alloc_run cfg cur 0 pool ks = Inr ([], pool, ks)"
| "alloc_run cfg cur (Suc n) pool ks =
     (case ion_page_pool_alloc cfg cur True (Some pool) True ks of
        Inl f \<Rightarrow> Inl f
      | Inr (r, fp, pool1, ks1) \<Rightarrow>
          (case alloc_run cfg cur n pool1 ks1 of
             Inl f \<Rightarrow> Inl f
           | Inr (rs, pool2, ks2) \<Rightarrow> Inr ((r, fp) # rs, pool2, ks2)))"

text \<open>The two faults raised by the assertions of \<open>ion_page_pool_remove\<close>.\<close>

definition count_bug :: "fault + 'a \<Rightarrow> bool" where
  "count_bug r = (r = Inl BUG_ON_high_count \<or> r = Inl BUG_ON_low_count)"

text \<open>Sample values on which the theorems below are instantiated.\<close>

definition example_boost_config :: boost_config where
  "example_boost_config =
     \<lparr>CONFIG_DEVFREQ_INPUT_BOOST_DURATION_MS = 64,
      CONFIG_DEVFREQ_INPUT_BOOST_MAX_DURATION_MS = 250,
      msecs_to_jiffies = ucast\<rparr>"

definition example_devfreq :: devfreq where
  "example_devfreq =
     \<lparr>min_freq = 0, max_freq = 7980, freq_table = [762, 1144, 7980],
      is_boost_device = False, recomputes = 0\<rparr>"

definition example_boost_dev :: boost_dev where
  "example_boost_dev = (BOOST_DEV_INIT 3879)\<lparr>df := Some example_devfreq\<rparr>"

text \<open>A registered device after a max kick and then a screen-off event.\<close>

definition example_dark_dev :: boost_dev where
  "example_dark_dev =
     boost_run example_boost_config (BOOST_DEV_INIT 3879)
       [Register example_devfreq, Kick True, Screen_off]"

definition example_mm_config :: mm_config where
  "example_mm_config = \<lparr>GFP_HIGHMEM = 2, PAGE_SHIFT = 12\<rparr>"

definition example_pool :: "nat \<Rightarrow> ion_page_pool" where
  "example_pool n =
     \<lparr>high_count = 0, low_count = 0, high_items = [], low_items = [],
      gfp_mask = 0, order = of_nat n, cached = False, list_prio = of_nat n\<rparr>"

definition example_kstate :: kstate where
  "example_kstate = \<lparr>nr_total_pages = 0, node_reclaimable_bytes = (\<lambda>_. 0), buddy = []\<rparr>"

definition low_page :: "nat \<Rightarrow> page" where
  "low_page n = \<lparr>pfn = n, PageHighMem = False, page_pgdat = 0\<rparr>"

definition high_page :: "nat \<Rightarrow> page" where
  "high_page n = \<lparr>pfn = n, PageHighMem = True, page_pgdat = 0\<rparr>"

text \<open>A pool of order 1 holding two low pages and one high page, and its counter.\<close>

definition example_full_pool :: ion_page_pool where
  "example_full_pool =
     \<lparr>high_count = 1, low_count = 2, high_items = [high_page 3],
      low_items = [low_page 1, low_page 2],
      gfp_mask = 0, order = 1, cached = False, list_prio = 1\<rparr>"

definition example_full_kstate :: kstate where
  "example_full_kstate = \<lparr>nr_total_pages = 6, node_reclaimable_bytes = (\<lambda>_. 0), buddy = []\<rparr>"

definition kswapd_task :: task where
  "kswapd_task = \<lparr>fatal_signal_pending = False, current_is_kswapd = True\<rparr>"

definition example_task :: task where
  "example_task = \<lparr>fatal_signal_pending = False, current_is_kswapd = False\<rparr>"

definition dying_task :: task where
  "dying_task = \<lparr>fatal_signal_pending = True, current_is_kswapd = False\<rparr>"

section \<open>Properties of the boost driver\<close>

subsection \<open>Bits of the state word\<close>

lemma test_bit_iff: "test_bit nr w = bit w nr"
  unfolding test_bit_def by (simp add: and_exp_eq_0_iff_not_bit)

lemma set_bit_k_eq: "set_bit_k nr w = set_bit nr w"
  unfolding set_bit_k_def by (simp add: set_bit_eq_or)

lemma clear_bit_eq: "clear_bit nr w = unset_bit nr w"
  unfolding clear_bit_def by (simp add: unset_bit_eq_and_not)

lemma test_bit_set_bit_k:
  "test_bit m (set_bit_k n w) = (if m = n then n < 64 else test_bit m w)"
  by (auto simp add: test_bit_iff set_bit_k_eq bit_simps dest: bit_imp_le_length)

lemma test_bit_clear_bit: "test_bit m (clear_bit n w) = (m \<noteq> n \<and> test_bit m w)"
  by (auto simp add: test_bit_iff clear_bit_eq bit_simps)

lemmas boost_bits = SCREEN_OFF_def INPUT_BOOST_def MAX_BOOST_def

lemma kick_state:
  "df b \<noteq> None \<Longrightarrow> \<not> test_bit SCREEN_OFF (state b) \<Longrightarrow>
   state (devfreq_boost_kick_dev cfg b max_req) =
     (if max_req then clear_bit INPUT_BOOST (set_bit_k MAX_BOOST (state b))
      else set_bit_k INPUT_BOOST (state b))"
  by (cases "unboost b")
     (auto simp add: devfreq_boost_kick_dev_def mod_delayed_work_def wake_up_def Let_def)

subsection \<open>The two boost bits\<close>




subsection \<open>Kicks that do nothing\<close>

text \<open>
  C9: on a device whose governor pointer is NULL, and on a device whose
  \<open>SCREEN_OFF\<close> bit is set, a kick with either value of \<open>max\<close> returns the device as it
  was: the state word, the delayed work and the count of wake-ups are unchanged. The
  function has no error result. The same holds through \<open>devfreq_boost_kick\<close> for a
  device of the driver's array.
\<close>

theorem kick_is_noop_when_unregistered_or_screen_off:
  assumes "df b = None \<or> test_bit SCREEN_OFF (state b)"
  shows "devfreq_boost_kick_dev cfg b max_req = b
       \<and> state (devfreq_boost_kick_dev cfg b max_req) = state b
       \<and> unboost (devfreq_boost_kick_dev cfg b max_req) = unboost b
       \<and> boost_waitq (devfreq_boost_kick_dev cfg b max_req) = boost_waitq b
       \<and> (device < length (devices d) \<and> devices d ! device = b \<longrightarrow>
            devfreq_boost_kick cfg d device max_req = Inr d)"
proof -
  from assms have same: "devfreq_boost_kick_dev cfg b max_req = b"
    by (auto simp add: devfreq_boost_kick_dev_def)
  then show ?thesis
    by (auto simp add: devfreq_boost_kick_def)
qed

theorem kick_is_noop_when_unregistered_or_screen_off_witness:
  "df (BOOST_DEV_INIT 3879) = None
   \<and> devfreq_boost_kick_dev example_boost_config (BOOST_DEV_INIT 3879) True = BOOST_DEV_INIT 3879
   \<and> devfreq_boost_kick_dev example_boost_config (BOOST_DEV_INIT 3879) False = BOOST_DEV_INIT 3879
   \<and> test_bit SCREEN_OFF (state (drm_blank_dev False example_boost_dev))
   \<and> devfreq_boost_kick_dev example_boost_config (drm_blank_dev False example_boost_dev) True
       = drm_blank_dev False example_boost_dev"
proof -
  have unreg: "df (BOOST_DEV_INIT 3879) = None \<or> test_bit SCREEN_OFF (state (BOOST_DEV_INIT 3879))"
    by (simp add: BOOST_DEV_INIT_def)
  have off: "test_bit SCREEN_OFF (state (drm_blank_dev False example_boost_dev))"
    by (simp add: drm_blank_dev_def wake_up_def test_bit_set_bit_k SCREEN_OFF_def)
  then have off': "df (drm_blank_dev False example_boost_dev) = None
      \<or> test_bit SCREEN_OFF (state (drm_blank_dev False example_boost_dev))"
    by simp
  from kick_is_noop_when_unregistered_or_screen_off [OF unreg, of example_boost_config True]
       kick_is_noop_when_unregistered_or_screen_off [OF unreg, of example_boost_config False]
       kick_is_noop_when_unregistered_or_screen_off [OF off', of example_boost_config True]
       off
  show ?thesis by (simp add: BOOST_DEV_INIT_def)
qed

subsection \<open>The frequency the worker applies\<close>

text \<open>
  C3: for a registered device with a frequency table, \<open>devfreq_update_boosts\<close> writes
  the governor's minimum frequency by this precedence: with \<open>SCREEN_OFF\<close> set, the
  first table entry, whatever the boost bits are; otherwise with \<open>MAX_BOOST\<close> set, the
  device maximum; otherwise with \<open>INPUT_BOOST\<close> set, the smaller of the configured
  boost frequency and the device maximum; otherwise the first table entry. It then
  has the governor recompute once. The worker calls it with the state it observed,
  whenever that state differs from the last one it saw.
\<close>

theorem update_boosts_precedence:
  assumes "df b = Some d" and "freq_table d = f0 # fs"
  shows "devfreq_update_boosts b st =
           Inr (b\<lparr>df := Some (d\<lparr>min_freq :=
                  (if test_bit SCREEN_OFF st then f0
                   else if test_bit MAX_BOOST st then max_freq d
                   else if test_bit INPUT_BOOST st then min (boost_freq b) (max_freq d)
                   else f0),
                  recomputes := Suc (recomputes d)\<rparr>)\<rparr>)
       \<and> (state b \<noteq> old_state \<longrightarrow>
            devfreq_boost_thread_pass b old_state should_stop =
              Updated (devfreq_update_boosts b (state b)) (state b))"
  using assms
  by (simp add: devfreq_update_boosts_def freq_table_0_def update_devfreq_def
        devfreq_boost_thread_pass_def Let_def)

lemma example_dark_dev_eq:
  "example_dark_dev =
     \<lparr>df = Some (example_devfreq\<lparr>is_boost_device := True\<rparr>), unboost = Some 250,
      boost_waitq = 2, boost_freq = 3879, state = 5\<rparr>"
  by (simp add: example_dark_dev_def boost_run_def BOOST_DEV_INIT_def
        devfreq_boost_kick_dev_def mod_delayed_work_def wake_up_def drm_blank_dev_def
        test_bit_def set_bit_k_def clear_bit_def boost_bits example_boost_config_def)

theorem update_boosts_precedence_witness:
  "df example_dark_dev = Some (example_devfreq\<lparr>is_boost_device := True\<rparr>)
   \<and> freq_table (example_devfreq\<lparr>is_boost_device := True\<rparr>) = 762 # [1144, 7980]
   \<and> test_bit SCREEN_OFF (state example_dark_dev)
   \<and> test_bit MAX_BOOST (state example_dark_dev)
   \<and> devfreq_update_boosts example_dark_dev (state example_dark_dev) =
       Inr (example_dark_dev\<lparr>df := Some (example_devfreq
              \<lparr>is_boost_device := True, min_freq := 762, recomputes := 1\<rparr>)\<rparr>)
   \<and> devfreq_boost_thread_pass example_dark_dev 0 False =
       Updated (devfreq_update_boosts example_dark_dev (state example_dark_dev)) 5"
proof -
  have d: "df example_dark_dev = Some (example_devfreq\<lparr>is_boost_device := True\<rparr>)"
    by (simp add: example_dark_dev_eq)
  have t: "freq_table (example_devfreq\<lparr>is_boost_device := True\<rparr>) = 762 # [1144, 7980]"
    by (simp add: example_devfreq_def)
  have s: "state example_dark_dev = 5"
    by (simp add: example_dark_dev_eq)
  have bits: "test_bit SCREEN_OFF (5 :: c_ulong)" "test_bit MAX_BOOST (5 :: c_ulong)"
    by (simp_all add: test_bit_def boost_bits)
  from update_boosts_precedence [OF d t, of "state example_dark_dev" 0 False] d t s bits
  show ?thesis by (simp add: example_devfreq_def)
qed

subsection \<open>Timer, wake-ups and screen events\<close>

text \<open>
  A kick that takes effect leaves the unboost work pending with the delay of its
  kind (the max duration for a max kick, the input duration otherwise), and wakes
  the worker exactly when the work was idle before: a kick that only re-arms a
  pending work does not wake.
\<close>

theorem kick_arms_timer_and_wakes_if_idle:
  assumes "df b \<noteq> None" and "\<not> test_bit SCREEN_OFF (state b)"
  shows "unboost (devfreq_boost_kick_dev cfg b max_req) =
           Some (msecs_to_jiffies cfg
                  (if max_req then CONFIG_DEVFREQ_INPUT_BOOST_MAX_DURATION_MS cfg
                   else CONFIG_DEVFREQ_INPUT_BOOST_DURATION_MS cfg))
       \<and> boost_waitq (devfreq_boost_kick_dev cfg b max_req) =
           (if unboost b = None then Suc (boost_waitq b) else boost_waitq b)"
  using assms
  by (cases "unboost b")
     (auto simp add: devfreq_boost_kick_dev_def mod_delayed_work_def wake_up_def Let_def)

theorem kick_arms_timer_and_wakes_if_idle_witness:
  "df example_boost_dev \<noteq> None
   \<and> \<not> test_bit SCREEN_OFF (state example_boost_dev)
   \<and> unboost (devfreq_boost_kick_dev example_boost_config example_boost_dev False) = Some 64
   \<and> boost_waitq (devfreq_boost_kick_dev example_boost_config example_boost_dev False) = 1
   \<and> unboost (devfreq_boost_kick_dev example_boost_config
         (devfreq_boost_kick_dev example_boost_config example_boost_dev False) True) = Some 250
   \<and> boost_waitq (devfreq_boost_kick_dev example_boost_config
         (devfreq_boost_kick_dev example_boost_config example_boost_dev False) True) = 1"
proof -
  let ?b1 = "devfreq_boost_kick_dev example_boost_config example_boost_dev False"
  have reg: "df example_boost_dev \<noteq> None"
    by (simp add: example_boost_dev_def)
  have on: "\<not> test_bit SCREEN_OFF (state example_boost_dev)"
    by (simp add: example_boost_dev_def BOOST_DEV_INIT_def test_bit_def)
  have idle: "unboost example_boost_dev = None" "boost_waitq example_boost_dev = 0"
    by (simp_all add: example_boost_dev_def BOOST_DEV_INIT_def)
  note k1 = kick_arms_timer_and_wakes_if_idle [OF reg on, of example_boost_config False]
  have reg1: "df ?b1 \<noteq> None"
    using reg on by (simp add: devfreq_boost_kick_dev_def mod_delayed_work_def wake_up_def Let_def
        split: prod.splits)
  have on1: "\<not> test_bit SCREEN_OFF (state ?b1)"
    using on by (simp add: kick_state[OF reg on] test_bit_set_bit_k boost_bits)
  note k2 = kick_arms_timer_and_wakes_if_idle [OF reg1 on1, of example_boost_config True]
  from k1 k2 reg on idle show ?thesis
    by (simp add: example_boost_config_def)
qed

text \<open>
  A screen-off event sets \<open>SCREEN_OFF\<close> and wakes the worker; a screen-on event
  clears \<open>SCREEN_OFF\<close> and does not wake it. Neither touches the two boost bits or
  the unboost work.
\<close>

theorem screen_events_keep_boost_bits:
  "test_bit SCREEN_OFF (state (drm_blank_dev False b))
   \<and> test_bit INPUT_BOOST (state (drm_blank_dev False b)) = test_bit INPUT_BOOST (state b)
   \<and> test_bit MAX_BOOST (state (drm_blank_dev False b)) = test_bit MAX_BOOST (state b)
   \<and> boost_waitq (drm_blank_dev False b) = Suc (boost_waitq b)
   \<and> \<not> test_bit SCREEN_OFF (state (drm_blank_dev True b))
   \<and> test_bit INPUT_BOOST (state (drm_blank_dev True b)) = test_bit INPUT_BOOST (state b)
   \<and> test_bit MAX_BOOST (state (drm_blank_dev True b)) = test_bit MAX_BOOST (state b)
   \<and> boost_waitq (drm_blank_dev True b) = boost_waitq b
   \<and> unboost (drm_blank_dev False b) = unboost b
   \<and> unboost (drm_blank_dev True b) = unboost b"
  by (simp add: drm_blank_dev_def wake_up_def test_bit_set_bit_k test_bit_clear_bit boost_bits)

text \<open>
  When the unboost work runs after a kick on a registered device with the screen
  on, both boost bits are clear and the work is idle again; the worker, updating
  from that state, applies the first entry of the frequency table.
\<close>

theorem unboost_then_worker_applies_table_minimum:
  assumes "df b = Some d" and "freq_table d = f0 # fs"
    and "\<not> test_bit SCREEN_OFF (state b)"
  shows "\<not> test_bit MAX_BOOST (state (devfreq_unboost (devfreq_boost_kick_dev cfg b max_req)))
       \<and> \<not> test_bit INPUT_BOOST (state (devfreq_unboost (devfreq_boost_kick_dev cfg b max_req)))
       \<and> unboost (devfreq_unboost (devfreq_boost_kick_dev cfg b max_req)) = None
       \<and> (\<exists>b'. devfreq_update_boosts (devfreq_unboost (devfreq_boost_kick_dev cfg b max_req))
                 (state (devfreq_unboost (devfreq_boost_kick_dev cfg b max_req))) = Inr b'
               \<and> map_option min_freq (df b') = Some f0)"
proof -
  let ?k = "devfreq_boost_kick_dev cfg b max_req"
  let ?u = "devfreq_unboost ?k"
  from assms have reg: "df b \<noteq> None" by simp
  have dk: "df ?k = Some d"
    using assms by (cases "unboost b")
      (auto simp add: devfreq_boost_kick_dev_def mod_delayed_work_def wake_up_def Let_def)
  then have du: "df ?u = Some d"
    by (simp add: devfreq_unboost_def wake_up_def)
  have so: "\<not> test_bit SCREEN_OFF (state ?u)"
    using assms(3)
    by (simp add: devfreq_unboost_def wake_up_def kick_state[OF reg assms(3)]
          test_bit_set_bit_k test_bit_clear_bit boost_bits)
  have bits: "\<not> test_bit MAX_BOOST (state ?u)" "\<not> test_bit INPUT_BOOST (state ?u)"
    by (simp_all add: devfreq_unboost_def wake_up_def test_bit_clear_bit)
  have idle: "unboost ?u = None"
    by (simp add: devfreq_unboost_def wake_up_def)
  from du assms(2) so bits have
    "\<exists>b'. devfreq_update_boosts ?u (state ?u) = Inr b' \<and> map_option min_freq (df b') = Some f0"
    by (simp add: devfreq_update_boosts_def freq_table_0_def update_devfreq_def)
  with bits idle show ?thesis by simp
qed

theorem unboost_then_worker_applies_table_minimum_witness:
  "df example_boost_dev = Some example_devfreq
   \<and> freq_table example_devfreq = 762 # [1144, 7980]
   \<and> \<not> test_bit SCREEN_OFF (state example_boost_dev)
   \<and> (\<exists>b'. devfreq_update_boosts
               (devfreq_unboost (devfreq_boost_kick_dev example_boost_config example_boost_dev True))
               (state (devfreq_unboost
                  (devfreq_boost_kick_dev example_boost_config example_boost_dev True))) = Inr b'
             \<and> map_option min_freq (df b') = Some 762)"
proof -
  have d: "df example_boost_dev = Some example_devfreq"
    by (simp add: example_boost_dev_def)
  have t: "freq_table example_devfreq = 762 # [1144, 7980]"
    by (simp add: example_devfreq_def)
  have on: "\<not> test_bit SCREEN_OFF (state example_boost_dev)"
    by (simp add: example_boost_dev_def BOOST_DEV_INIT_def test_bit_def)
  from unboost_then_worker_applies_table_minimum [OF d t on, of example_boost_config True] d t on
  show ?thesis by simp
qed

section \<open>Properties of the page pool\<close>

subsection \<open>A pending fatal signal\<close>

text \<open>
  C6: when a fatal signal is pending on the caller, \<open>ion_page_pool_alloc\<close> returns
  \<open>ERR_PTR(-EINTR)\<close> and nothing else happens: the pool (both lists and both
  counts), the kernel state (the global page counter, the node counters, the page
  allocator) and \<open>*from_pool\<close> are as they were, whatever the lock would have done.
\<close>

theorem alloc_interrupted_before_touching_pool:
  assumes "fatal_signal_pending cur"
  shows "ion_page_pool_alloc cfg cur trylock (Some pool) from_pool ks =
           Inr (Inl EINTR, from_pool, pool, ks)"
  using assms by (simp add: ion_page_pool_alloc_def)

theorem alloc_interrupted_before_touching_pool_witness:
  "fatal_signal_pending dying_task
   \<and> ion_page_pool_alloc example_mm_config dying_task True (Some example_full_pool) True
         example_full_kstate =
       Inr (Inl EINTR, True, example_full_pool, example_full_kstate)"
proof -
  have d: "fatal_signal_pending dying_task"
    by (simp add: dying_task_def)
  from d alloc_interrupted_before_touching_pool [OF d]
  show ?thesis by simp
qed

subsection \<open>Shrink with nothing to scan\<close>

text \<open>
  C7: with \<open>nr_to_scan = 0\<close>, \<open>ion_page_pool_shrink\<close> returns
  \<open>ion_page_pool_total\<close> of the pool, counting the high list exactly when the caller
  is kswapd or the mask has \<open>__GFP_HIGHMEM\<close>, and returns the pool and the kernel
  state unchanged.
\<close>

theorem shrink_zero_is_pure_query:
  "ion_page_pool_shrink cfg cur pool gfp_flags 0 ks =
     Inr (ion_page_pool_total pool
            (current_is_kswapd cur \<or> gfp_flags AND GFP_HIGHMEM cfg \<noteq> 0), pool, ks)"
  by (simp add: ion_page_pool_shrink_def)

text \<open>
  On a pool of order 2 with three low and two high pages the query answers 12
  without the high list and 20 with it.
\<close>

theorem shrink_zero_is_pure_query_witness:
  "ion_page_pool_shrink example_mm_config example_task
       ((example_pool 2)\<lparr>low_count := 3, high_count := 2,
           low_items := [low_page 1, low_page 2, low_page 3],
           high_items := [high_page 4, high_page 5]\<rparr>) 0 0 example_kstate =
     Inr (12, (example_pool 2)\<lparr>low_count := 3, high_count := 2,
           low_items := [low_page 1, low_page 2, low_page 3],
           high_items := [high_page 4, high_page 5]\<rparr>, example_kstate)
   \<and> ion_page_pool_shrink example_mm_config kswapd_task
       ((example_pool 2)\<lparr>low_count := 3, high_count := 2,
           low_items := [low_page 1, low_page 2, low_page 3],
           high_items := [high_page 4, high_page 5]\<rparr>) 0 0 example_kstate =
     Inr (20, (example_pool 2)\<lparr>low_count := 3, high_count := 2,
           low_items := [low_page 1, low_page 2, low_page 3],
           high_items := [high_page 4, high_page 5]\<rparr>, example_kstate)"
  using shrink_zero_is_pure_query [of example_mm_config example_task
          "(example_pool 2)\<lparr>low_count := 3, high_count := 2,
             low_items := [low_page 1, low_page 2, low_page 3],
             high_items := [high_page 4, high_page 5]\<rparr>" 0 example_kstate]
        shrink_zero_is_pure_query [of example_mm_config kswapd_task
          "(example_pool 2)\<lparr>low_count := 3, high_count := 2,
             low_items := [low_page 1, low_page 2, low_page 3],
             high_items := [high_page 4, high_page 5]\<rparr>" 0 example_kstate]
  by (simp add: ion_page_pool_total_def example_pool_def example_task_def kswapd_task_def
        example_mm_config_def)

subsection \<open>The assertions of the pop\<close>

lemma remove_not_bug_high:
  "high_count pool \<noteq> 0 \<Longrightarrow> ion_page_pool_remove cfg pool True ks \<noteq> Inl BUG_ON_high_count
     \<and> ion_page_pool_remove cfg pool True ks \<noteq> Inl BUG_ON_low_count"
  by (simp add: ion_page_pool_remove_def Let_def split: list.splits)

lemma remove_not_bug_low:
  "low_count pool \<noteq> 0 \<Longrightarrow> ion_page_pool_remove cfg pool False ks \<noteq> Inl BUG_ON_high_count
     \<and> ion_page_pool_remove cfg pool False ks \<noteq> Inl BUG_ON_low_count"
  by (simp add: ion_page_pool_remove_def Let_def split: list.splits)

lemma shrink_loop_no_bug:
  "\<not> count_bug (shrink_loop cfg high nr_to_scan freed pool ks)"
proof (induction cfg high nr_to_scan freed pool ks rule: shrink_loop.induct)
  case (1 cfg high nr_to_scan freed pool ks)
  show ?case
  proof (cases "freed <s nr_to_scan")
    case False
    then show ?thesis by (subst shrink_loop.simps) (simp add: count_bug_def)
  next
    case scan: True
    show ?thesis
    proof (cases "low_count pool \<noteq> 0")
      case True
      show ?thesis
      proof (cases "ion_page_pool_remove cfg pool False ks")
        case (Inl f)
        with remove_not_bug_low[OF True, of cfg ks] scan True show ?thesis
          by (subst shrink_loop.simps) (simp add: count_bug_def)
      next
        case (Inr r)
        obtain pg pool1 ks1 where r: "r = (pg, pool1, ks1)" by (cases r) auto
        from "1.IH"(1)[OF scan True Inr r[symmetric] refl] scan True Inr r
        show ?thesis by (subst shrink_loop.simps) simp
      qed
    next
      case low0: False
      show ?thesis
      proof (cases "high \<and> high_count pool \<noteq> 0")
        case True
        then have hc: "high_count pool \<noteq> 0" by simp
        show ?thesis
        proof (cases "ion_page_pool_remove cfg pool True ks")
          case (Inl f)
          with remove_not_bug_high[OF hc, of cfg ks] scan True low0 show ?thesis
            by (subst shrink_loop.simps) (simp add: count_bug_def)
        next
          case (Inr r)
          obtain pg pool1 ks1 where r: "r = (pg, pool1, ks1)" by (cases r) auto
          from "1.IH"(2)[OF scan low0 True Inr r[symmetric] refl] scan True low0 Inr r
          show ?thesis by (subst shrink_loop.simps) simp
        qed
      next
        case False
        with scan low0 show ?thesis
          by (subst shrink_loop.simps) (auto simp add: count_bug_def)
      qed
    qed
  qed
qed

text \<open>
  C10: neither \<open>BUG_ON\<close> of \<open>ion_page_pool_remove\<close> fires in a call of
  \<open>ion_page_pool_alloc\<close>, \<open>ion_page_pool_alloc_pool_only\<close> or
  \<open>ion_page_pool_shrink\<close>, for every pool, well-formed or not, and every argument:
  each of them tests the count of a list before it pops that list. The assertions
  themselves are live (a pop of a list whose count is 0 is exactly what raises them).
  The two allocation functions pop only after their \<open>spin_trylock\<close> succeeded: when
  it fails they leave the pool as it is. \<open>ion_page_pool_shrink\<close> takes the lock
  unconditionally around each test and pop.
\<close>

theorem count_assertion_never_fires:
  "\<not> count_bug (ion_page_pool_alloc cfg cur trylock pool_ptr from_pool ks)
   \<and> \<not> count_bug (ion_page_pool_alloc_pool_only cfg trylock pool_ptr ks)
   \<and> \<not> count_bug (ion_page_pool_shrink cfg cur pool gfp_flags nr_to_scan ks)
   \<and> (ion_page_pool_remove cfg pool True ks = Inl BUG_ON_high_count) = (high_count pool = 0)
   \<and> (ion_page_pool_remove cfg pool False ks = Inl BUG_ON_low_count) = (low_count pool = 0)
   \<and> (\<not> trylock \<longrightarrow>
        ion_page_pool_alloc_pool_only cfg trylock (Some pool) ks =
          Inr (Inl ENOMEM, Some pool, ks))
   \<and> (\<not> trylock \<and> \<not> fatal_signal_pending cur \<longrightarrow>
        (\<exists>r ks'. ion_page_pool_alloc cfg cur trylock (Some pool) from_pool ks =
                   Inr (r, False, pool, ks')
                 \<and> nr_total_pages ks' = nr_total_pages ks))"
proof -
  have a: "\<not> count_bug (ion_page_pool_alloc cfg cur trylock pool_ptr from_pool ks)"
    using remove_not_bug_high[of _ cfg ks] remove_not_bug_low[of _ cfg ks]
    by (auto simp add: ion_page_pool_alloc_def count_bug_def
             split: option.splits sum.splits prod.splits if_splits)
  have b: "\<not> count_bug (ion_page_pool_alloc_pool_only cfg trylock pool_ptr ks)"
    using remove_not_bug_high[of _ cfg ks] remove_not_bug_low[of _ cfg ks]
    by (auto simp add: ion_page_pool_alloc_pool_only_def count_bug_def
             split: option.splits sum.splits prod.splits if_splits)
  have c: "\<not> count_bug (ion_page_pool_shrink cfg cur pool gfp_flags nr_to_scan ks)"
    using shrink_loop_no_bug by (simp add: ion_page_pool_shrink_def Let_def count_bug_def)
  have d: "(ion_page_pool_remove cfg pool True ks = Inl BUG_ON_high_count) = (high_count pool = 0)"
    by (simp add: ion_page_pool_remove_def Let_def split: list.splits)
  have e: "(ion_page_pool_remove cfg pool False ks = Inl BUG_ON_low_count) = (low_count pool = 0)"
    by (simp add: ion_page_pool_remove_def Let_def split: list.splits)
  have f: "\<not> trylock \<longrightarrow>
        ion_page_pool_alloc_pool_only cfg trylock (Some pool) ks =
          Inr (Inl ENOMEM, Some pool, ks)"
    by (simp add: ion_page_pool_alloc_pool_only_def)
  have g: "\<not> trylock \<and> \<not> fatal_signal_pending cur \<longrightarrow>
        (\<exists>r ks'. ion_page_pool_alloc cfg cur trylock (Some pool) from_pool ks =
                   Inr (r, False, pool, ks')
                 \<and> nr_total_pages ks' = nr_total_pages ks)"
    by (auto simp add: ion_page_pool_alloc_def ion_page_pool_alloc_pages_def alloc_pages_def
             split: list.splits)
  from a b c d e f g show ?thesis by blast
qed

theorem count_assertion_never_fires_witness:
  "\<not> count_bug (ion_page_pool_alloc example_mm_config kswapd_task True
        (Some (example_pool 0)) True example_kstate)
   \<and> \<not> count_bug (ion_page_pool_alloc_pool_only example_mm_config True
        (Some (example_pool 0)) example_kstate)
   \<and> \<not> count_bug (ion_page_pool_shrink example_mm_config kswapd_task (example_pool 0) 0 8
        example_kstate)
   \<and> ion_page_pool_remove example_mm_config (example_pool 0) True example_kstate =
        Inl BUG_ON_high_count
   \<and> ion_page_pool_remove example_mm_config (example_pool 0) False example_kstate =
        Inl BUG_ON_low_count
   \<and> ion_page_pool_alloc_pool_only example_mm_config False (Some example_full_pool)
        example_full_kstate = Inr (Inl ENOMEM, Some example_full_pool, example_full_kstate)"
  using count_assertion_never_fires [of example_mm_config kswapd_task True
          "Some (example_pool 0)" True example_kstate "example_pool 0" 0 8]
        count_assertion_never_fires [of example_mm_config kswapd_task False
          "Some example_full_pool" True example_full_kstate example_full_pool 0 8]
  by (simp add: example_pool_def)

subsection \<open>Shifts and sign extension\<close>

lemma shl1_eq: "shl1 n = 2 ^ n"
  by (simp add: shl1_def push_bit_eq_mult)

lemma sint_2p_32: "n < 31 \<Longrightarrow> sint ((2::32 word) ^ n) = 2 ^ n"
proof -
  assume n: "n < 31"
  have "sint ((2::32 word) ^ n) = signed_take_bit 31 ((2::int) ^ n)"
    using sint_sbintrunc'[where 'a=32, of "2 ^ n"] by simp
  also have "\<dots> = 2 ^ n"
  proof (rule signed_take_bit_int_eq_self)
    show "- (2 ^ 31) \<le> (2::int) ^ n"
      by (rule order_trans[of _ 0]) simp_all
    show "(2::int) ^ n < 2 ^ 31"
      by (rule power_strict_increasing) (use n in simp_all)
  qed
  finally show ?thesis .
qed

lemma shl1_sint: "n < 31 \<Longrightarrow> sint (shl1 n) = 2 ^ n"
  by (simp add: shl1_eq sint_2p_32)

lemma int_to_long_shl1: "n < 31 \<Longrightarrow> int_to_long (shl1 n) = 2 ^ n"
proof -
  assume n: "n < 31"
  have "int_to_long (shl1 n) = word_of_int (sint (shl1 n))"
    unfolding int_to_long_def by (rule scast_eq)
  also have "\<dots> = word_of_int (2 ^ n)"
    using n by (simp only: shl1_sint)
  also have "\<dots> = 2 ^ n"
    by (simp add: word_of_int_2p)
  finally show ?thesis .
qed

lemma nr_pages_nonneg: "0 \<le> sint (fst (ion_page_pool_nr_pages ks))"
  by (simp add: ion_page_pool_nr_pages_def Let_def word_sless_alt)

lemma add_counter:
  "unat (order pool) < 31 \<Longrightarrow>
   nr_total_pages (snd (snd (ion_page_pool_add cfg pool pg ks))) =
     nr_total_pages ks + 2 ^ unat (order pool)"
  by (simp add: ion_page_pool_add_def Let_def mod_node_page_state_def int_to_long_shl1)

lemma remove_counter:
  "unat (order pool) < 31 \<Longrightarrow> ion_page_pool_remove cfg pool high ks = Inr (pg, pool1, ks1) \<Longrightarrow>
   nr_total_pages ks1 = nr_total_pages ks - 2 ^ unat (order pool) \<and> order pool1 = order pool"
  by (auto simp add: ion_page_pool_remove_def Let_def mod_node_page_state_def int_to_long_shl1
           split: if_splits list.splits)

subsection \<open>Well-formed pools\<close>

lemma wf_high_nonzero: "pool_wf pool \<Longrightarrow> (high_count pool \<noteq> 0) = (high_items pool \<noteq> [])"
  by (metis length_0_conv pool_wf_def unat_eq_zero)

lemma wf_low_nonzero: "pool_wf pool \<Longrightarrow> (low_count pool \<noteq> 0) = (low_items pool \<noteq> [])"
  by (metis length_0_conv pool_wf_def unat_eq_zero)

lemma remove_high_wf:
  "pool_wf pool \<Longrightarrow> high_items pool = h # hs \<Longrightarrow>
   ion_page_pool_remove cfg pool True ks =
     Inr (h, pool\<lparr>high_count := high_count pool - 1, high_items := hs\<rparr>,
          mod_node_page_state (page_pgdat h)
            (int_to_long (- shl1 (PAGE_SHIFT cfg + unat (order pool))))
            (ks\<lparr>nr_total_pages := nr_total_pages ks - int_to_long (shl1 (unat (order pool)))\<rparr>))"
  using wf_high_nonzero[of pool]
  by (simp add: ion_page_pool_remove_def Let_def)

lemma remove_low_wf:
  "pool_wf pool \<Longrightarrow> low_items pool = l # ls \<Longrightarrow>
   ion_page_pool_remove cfg pool False ks =
     Inr (l, pool\<lparr>low_count := low_count pool - 1, low_items := ls\<rparr>,
          mod_node_page_state (page_pgdat l)
            (int_to_long (- shl1 (PAGE_SHIFT cfg + unat (order pool))))
            (ks\<lparr>nr_total_pages := nr_total_pages ks - int_to_long (shl1 (unat (order pool)))\<rparr>))"
  using wf_low_nonzero[of pool]
  by (simp add: ion_page_pool_remove_def Let_def)

lemma buddy_mod_node [simp]: "buddy (mod_node_page_state n d ks) = buddy ks"
  by (simp add: mod_node_page_state_def)

lemma buddy_free [simp]: "buddy (ion_page_pool_free_pages pool pg ks) = buddy ks @ [pg]"
  by (simp add: ion_page_pool_free_pages_def free_pages_def)

lemma nr_total_free [simp]:
  "nr_total_pages (ion_page_pool_free_pages pool pg ks) = nr_total_pages ks"
  by (simp add: ion_page_pool_free_pages_def free_pages_def)

lemma nr_total_mod_node [simp]:
  "nr_total_pages (mod_node_page_state n d ks) = nr_total_pages ks"
  by (simp add: mod_node_page_state_def)

lemma wf_after_low:
  "pool_wf pool \<Longrightarrow> low_items pool = l # ls \<Longrightarrow>
   pool_wf (pool\<lparr>low_count := low_count pool - 1, low_items := ls\<rparr>)"
  by (simp add: pool_wf_def unat_minus_one unat_eq_zero[symmetric] del: unat_eq_zero)

lemma wf_after_high:
  "pool_wf pool \<Longrightarrow> high_items pool = h # hs \<Longrightarrow>
   pool_wf (pool\<lparr>high_count := high_count pool - 1, high_items := hs\<rparr>)"
  by (simp add: pool_wf_def unat_minus_one unat_eq_zero[symmetric] del: unat_eq_zero)

lemma unat_succ: "unat (c :: 32 word) = n \<Longrightarrow> Suc n < 2 ^ 32 \<Longrightarrow> unat (c + 1) = Suc n"
  by (simp add: unat_word_ariths)

lemma add_wf:
  assumes "pool_wf pool"
    and "if PageHighMem pg then Suc (length (high_items pool)) < 2 ^ 32
         else Suc (length (low_items pool)) < 2 ^ 32"
  shows "pool_wf (fst (snd (ion_page_pool_add cfg pool pg ks)))
       \<and> high_items (fst (snd (ion_page_pool_add cfg pool pg ks))) =
           high_items pool @ (if PageHighMem pg then [pg] else [])
       \<and> low_items (fst (snd (ion_page_pool_add cfg pool pg ks))) =
           low_items pool @ (if PageHighMem pg then [] else [pg])"
  using assms
  by (auto simp add: ion_page_pool_add_def Let_def pool_wf_def intro: unat_succ split: if_splits)

lemma remove_returns:
  assumes "pool_wf pool"
    and "if high then high_items pool \<noteq> [] else low_items pool \<noteq> []"
  shows "\<exists>ks1. ion_page_pool_remove cfg pool high ks =
           Inr (hd (if high then high_items pool else low_items pool),
                (if high then pool\<lparr>high_count := high_count pool - 1,
                                    high_items := tl (high_items pool)\<rparr>
                 else pool\<lparr>low_count := low_count pool - 1,
                            low_items := tl (low_items pool)\<rparr>), ks1)
         \<and> nr_total_pages ks1 =
             nr_total_pages ks - int_to_long (shl1 (unat (order pool)))
         \<and> buddy ks1 = buddy ks"
proof (cases high)
  case True
  with assms(2) obtain h hs where l: "high_items pool = h # hs"
    by (cases "high_items pool") auto
  from remove_high_wf[OF assms(1) l, of cfg ks] True l show ?thesis by simp
next
  case False
  with assms(2) obtain l ls where l: "low_items pool = l # ls"
    by (cases "low_items pool") auto
  from remove_low_wf[OF assms(1) l, of cfg ks] False l show ?thesis by simp
qed

subsection \<open>The global page counter\<close>

lemma sint_2p_64: "n < 31 \<Longrightarrow> sint ((2::64 word) ^ n) = 2 ^ n"
proof -
  assume n: "n < 31"
  have "sint ((2::64 word) ^ n) = signed_take_bit 63 ((2::int) ^ n)"
    using sint_sbintrunc'[where 'a=64, of "2 ^ n"] by simp
  also have "\<dots> = 2 ^ n"
  proof (rule signed_take_bit_int_eq_self)
    show "- (2 ^ 63) \<le> (2::int) ^ n"
      by (rule order_trans[of _ 0]) simp_all
    show "(2::int) ^ n < 2 ^ 63"
      by (rule power_strict_increasing) (use n in simp_all)
  qed
  finally show ?thesis .
qed

lemma sint_long_add_2p:
  assumes "n < 31" and "sint (c :: c_long) + 2 ^ n < 2 ^ 63"
  shows "sint (c + 2 ^ n) = sint c + 2 ^ n"
proof -
  have "sint (c + 2 ^ n) = signed_take_bit 63 (sint c + sint ((2::64 word) ^ n))"
    by (simp add: sint_word_ariths)
  also have "\<dots> = signed_take_bit 63 (sint c + 2 ^ n)"
    using assms(1) by (simp only: sint_2p_64)
  also have "\<dots> = sint c + 2 ^ n"
  proof (rule signed_take_bit_int_eq_self)
    have "- (2 ^ 63) \<le> sint c" using sint_ge[of c] by simp
    moreover have "(0::int) \<le> 2 ^ n" by simp
    ultimately show "- (2 ^ 63) \<le> sint c + 2 ^ n" by linarith
    show "sint c + 2 ^ n < 2 ^ 63" by (rule assms(2))
  qed
  finally show ?thesis .
qed

lemma sint_long_sub_2p:
  assumes "n < 31" and "- (2 ^ 63) \<le> sint (c :: c_long) - 2 ^ n"
  shows "sint (c - 2 ^ n) = sint c - 2 ^ n"
proof -
  have "sint (c - 2 ^ n) = signed_take_bit 63 (sint c - sint ((2::64 word) ^ n))"
    by (simp add: sint_word_ariths)
  also have "\<dots> = signed_take_bit 63 (sint c - 2 ^ n)"
    using assms(1) by (simp only: sint_2p_64)
  also have "\<dots> = sint c - 2 ^ n"
  proof (rule signed_take_bit_int_eq_self)
    show "- (2 ^ 63) \<le> sint c - 2 ^ n" by (rule assms(2))
    have "sint c < 2 ^ 63" using sint_lt[of c] by simp
    moreover have "(0::int) \<le> 2 ^ n" by simp
    ultimately show "sint c - 2 ^ n < 2 ^ 63" by linarith
  qed
  finally show ?thesis .
qed

lemma add_order: "order (fst (snd (ion_page_pool_add cfg pool pg ks))) = order pool"
  by (simp add: ion_page_pool_add_def Let_def)

lemma pool_run_counter:
  "unat (order pool) < 31 \<Longrightarrow> pool_run cfg ops pool ks = Inr (pool2, ks2) \<Longrightarrow>
   nr_total_pages ks2 =
     nr_total_pages ks + 2 ^ unat (order pool) * of_nat (length (filter is_add ops))
       - 2 ^ unat (order pool) * of_nat (length (filter (\<lambda>x. \<not> is_add x) ops))"
proof (induction ops arbitrary: pool ks)
  case Nil
  then show ?case by simp
next
  case (Cons x ops)
  show ?case
  proof (cases x)
    case (Op_add pg)
    obtain r pool1 ks1 where a: "ion_page_pool_add cfg pool pg ks = (r, pool1, ks1)"
      by (cases "ion_page_pool_add cfg pool pg ks") auto
    from a add_order[of cfg pool pg ks] have o: "order pool1 = order pool" by simp
    from a add_counter[OF Cons.prems(1), of cfg pg ks]
    have c: "nr_total_pages ks1 = nr_total_pages ks + 2 ^ unat (order pool)" by simp
    from Cons.prems(2) Op_add a have "pool_run cfg ops pool1 ks1 = Inr (pool2, ks2)" by simp
    from Cons.IH[OF _ this] Cons.prems(1) o c Op_add show ?thesis
      by (simp add: algebra_simps)
  next
    case (Op_remove high)
    with Cons.prems(2) obtain pg pool1 ks1
      where r: "ion_page_pool_remove cfg pool high ks = Inr (pg, pool1, ks1)"
        and run: "pool_run cfg ops pool1 ks1 = Inr (pool2, ks2)"
      by (auto split: sum.splits)
    from remove_counter[OF Cons.prems(1) r]
    have c: "nr_total_pages ks1 = nr_total_pages ks - 2 ^ unat (order pool)"
      and o: "order pool1 = order pool" by simp_all
    from Cons.IH[OF _ run] Cons.prems(1) o c Op_remove show ?thesis
      by (simp add: algebra_simps)
  qed
qed

lemma pool_run_returns:
  assumes "unat (order pool) < 31" and "pool_wf pool"
    and "ops_fit (length (high_items pool)) (length (low_items pool)) ops"
  shows "\<exists>pool2 ks2. pool_run cfg ops pool ks = Inr (pool2, ks2)
       \<and> nr_total_pages ks2 =
           nr_total_pages ks
             + 2 ^ unat (order pool) * of_nat (length (filter is_add ops))
             - 2 ^ unat (order pool) * of_nat (length (filter (\<lambda>x. \<not> is_add x) ops))"
  using assms
proof (induction ops arbitrary: pool ks)
  case Nil
  then show ?case by simp
next
  case (Cons x ops)
  show ?case
  proof (cases x)
    case (Op_add pg)
    obtain r pool1 ks1 where a: "ion_page_pool_add cfg pool pg ks = (r, pool1, ks1)"
      by (cases "ion_page_pool_add cfg pool pg ks") auto
    from Cons.prems(3) Op_add
    have room: "if PageHighMem pg then Suc (length (high_items pool)) < 2 ^ 32
         else Suc (length (low_items pool)) < 2 ^ 32"
      by (simp split: if_splits)
    from add_wf[OF Cons.prems(2) room, of cfg ks] a
    have wf1: "pool_wf pool1"
      and h1: "high_items pool1 = high_items pool @ (if PageHighMem pg then [pg] else [])"
      and l1: "low_items pool1 = low_items pool @ (if PageHighMem pg then [] else [pg])"
      by simp_all
    from a add_order[of cfg pool pg ks] have o: "order pool1 = order pool" by simp
    from Cons.prems(3) Op_add h1 l1
    have fit: "ops_fit (length (high_items pool1)) (length (low_items pool1)) ops"
      by (simp split: if_splits)
    from Cons.prems(1) o have o1: "unat (order pool1) < 31" by simp
    from Cons.IH[OF o1 wf1 fit, of ks1] obtain pool2 ks2
      where run: "pool_run cfg ops pool1 ks1 = Inr (pool2, ks2)" by blast
    with a Op_add have full: "pool_run cfg (x # ops) pool ks = Inr (pool2, ks2)" by simp
    from pool_run_counter[OF Cons.prems(1) full] full show ?thesis by blast
  next
    case (Op_remove high)
    from Cons.prems(3) Op_remove
    have ne: "if high then high_items pool \<noteq> [] else low_items pool \<noteq> []"
      by (auto split: if_splits)
    from remove_returns[OF Cons.prems(2) ne, of cfg ks] obtain pg pool1 ks1
      where r: "ion_page_pool_remove cfg pool high ks = Inr (pg, pool1, ks1)"
        and p1: "pool1 = (if high then pool\<lparr>high_count := high_count pool - 1,
                                    high_items := tl (high_items pool)\<rparr>
                 else pool\<lparr>low_count := low_count pool - 1,
                            low_items := tl (low_items pool)\<rparr>)"
      by blast
    have wf1: "pool_wf pool1"
    proof (cases high)
      case True
      with ne obtain h hs where "high_items pool = h # hs" by (cases "high_items pool") auto
      with wf_after_high[OF Cons.prems(2) this] p1 True show ?thesis by simp
    next
      case False
      with ne obtain l ls where "low_items pool = l # ls" by (cases "low_items pool") auto
      with wf_after_low[OF Cons.prems(2) this] p1 False show ?thesis by simp
    qed
    from p1 have o: "order pool1 = order pool" by (simp split: if_splits)
    from Cons.prems(3) Op_remove p1
    have fit: "ops_fit (length (high_items pool1)) (length (low_items pool1)) ops"
      by (auto split: if_splits)
    from Cons.prems(1) o have o1: "unat (order pool1) < 31" by simp
    from Cons.IH[OF o1 wf1 fit, of ks1] obtain pool2 ks2
      where run: "pool_run cfg ops pool1 ks1 = Inr (pool2, ks2)" by blast
    with r Op_remove have full: "pool_run cfg (x # ops) pool ks = Inr (pool2, ks2)" by simp
    from pool_run_counter[OF Cons.prems(1) full] full show ?thesis by blast
  qed
qed

text \<open>
  C8: for a pool of order below 31 (so that \<open>1 << order\<close> is a positive \<open>int\<close>),
  an add raises \<open>nr_total_pages\<close> by \<open>2 ^ order\<close>, in the wrapping arithmetic of
  \<open>long\<close>. A remove from a list that holds an entry (on a well-formed pool) returns
  the first entry of that list and lowers \<open>nr_total_pages\<close> by \<open>2 ^ order\<close>; and
  whenever a remove returns, the counter has dropped by \<open>2 ^ order\<close>. A sequence of
  adds and removes in which every remove finds an entry runs to its end, and the
  counter has then moved by \<open>2 ^ order\<close> times the number of adds minus \<open>2 ^ order\<close>
  times the number of removes. Read as signed numbers, the counter after an add is
  the counter before plus \<open>2 ^ order\<close> unless that passes \<open>LONG_MAX\<close>, and after a
  remove the counter before minus \<open>2 ^ order\<close> unless that passes \<open>LONG_MIN\<close>.
  Whatever value the counter holds, \<open>ion_page_pool_nr_pages\<close> returns a value that
  is not negative: a negative counter is returned as 0, any other as it is, and the
  value returned is also the value stored.
\<close>

theorem counter_moves_by_unit_and_reads_nonnegative:
  assumes "unat (order pool) < 31"
  shows "nr_total_pages (snd (snd (ion_page_pool_add cfg pool pg ks))) =
           nr_total_pages ks + 2 ^ unat (order pool)
       \<and> (sint (nr_total_pages ks) + 2 ^ unat (order pool) < 2 ^ 63 \<longrightarrow>
            sint (nr_total_pages (snd (snd (ion_page_pool_add cfg pool pg ks)))) =
              sint (nr_total_pages ks) + 2 ^ unat (order pool))
       \<and> (ion_page_pool_remove cfg pool high ks = Inr (pg1, pool1, ks1) \<longrightarrow>
            nr_total_pages ks1 = nr_total_pages ks - 2 ^ unat (order pool))
       \<and> (ion_page_pool_remove cfg pool high ks = Inr (pg1, pool1, ks1)
            \<and> - (2 ^ 63) \<le> sint (nr_total_pages ks) - 2 ^ unat (order pool) \<longrightarrow>
            sint (nr_total_pages ks1) = sint (nr_total_pages ks) - 2 ^ unat (order pool))
       \<and> (pool_run cfg ops pool ks = Inr (pool2, ks2) \<longrightarrow>
            nr_total_pages ks2 =
              nr_total_pages ks
                + 2 ^ unat (order pool) * of_nat (length (filter is_add ops))
                - 2 ^ unat (order pool) * of_nat (length (filter (\<lambda>x. \<not> is_add x) ops)))
       \<and> 0 \<le> sint (fst (ion_page_pool_nr_pages ks3))
       \<and> fst (ion_page_pool_nr_pages ks3) =
           (if sint (nr_total_pages ks3) < 0 then 0 else nr_total_pages ks3)
       \<and> nr_total_pages (snd (ion_page_pool_nr_pages ks3)) = fst (ion_page_pool_nr_pages ks3)
       \<and> (pool_wf pool \<and> (if high then high_items pool \<noteq> [] else low_items pool \<noteq> []) \<longrightarrow>
            (\<exists>ks4. ion_page_pool_remove cfg pool high ks =
                     Inr (hd (if high then high_items pool else low_items pool),
                          (if high then pool\<lparr>high_count := high_count pool - 1,
                                              high_items := tl (high_items pool)\<rparr>
                           else pool\<lparr>low_count := low_count pool - 1,
                                      low_items := tl (low_items pool)\<rparr>), ks4)
                   \<and> nr_total_pages ks4 = nr_total_pages ks - 2 ^ unat (order pool)
                   \<and> (- (2 ^ 63) \<le> sint (nr_total_pages ks) - 2 ^ unat (order pool) \<longrightarrow>
                        sint (nr_total_pages ks4) =
                          sint (nr_total_pages ks) - 2 ^ unat (order pool))))
       \<and> (pool_wf pool
            \<and> ops_fit (length (high_items pool)) (length (low_items pool)) ops \<longrightarrow>
            (\<exists>pool3 ks5. pool_run cfg ops pool ks = Inr (pool3, ks5)
               \<and> nr_total_pages ks5 =
                   nr_total_pages ks
                     + 2 ^ unat (order pool) * of_nat (length (filter is_add ops))
                     - 2 ^ unat (order pool) * of_nat (length (filter (\<lambda>x. \<not> is_add x) ops))))"
proof -
  have rd: "fst (ion_page_pool_nr_pages ks3) =
           (if sint (nr_total_pages ks3) < 0 then 0 else nr_total_pages ks3)"
    by (simp add: ion_page_pool_nr_pages_def Let_def word_sless_alt)
  have wr: "nr_total_pages (snd (ion_page_pool_nr_pages ks3)) = fst (ion_page_pool_nr_pages ks3)"
    by (simp add: ion_page_pool_nr_pages_def Let_def)
  have sa: "sint (nr_total_pages ks) + 2 ^ unat (order pool) < 2 ^ 63 \<longrightarrow>
            sint (nr_total_pages (snd (snd (ion_page_pool_add cfg pool pg ks)))) =
              sint (nr_total_pages ks) + 2 ^ unat (order pool)"
    using sint_long_add_2p[OF assms, of "nr_total_pages ks"] add_counter[OF assms, of cfg pg ks]
    by simp
  have sr: "ion_page_pool_remove cfg pool high ks = Inr (pg1, pool1, ks1)
            \<and> - (2 ^ 63) \<le> sint (nr_total_pages ks) - 2 ^ unat (order pool) \<longrightarrow>
            sint (nr_total_pages ks1) = sint (nr_total_pages ks) - 2 ^ unat (order pool)"
    using sint_long_sub_2p[OF assms, of "nr_total_pages ks"]
          remove_counter[OF assms, of cfg high ks pg1 pool1 ks1]
    by simp
  have rr: "\<exists>ks4. ion_page_pool_remove cfg pool high ks =
                     Inr (hd (if high then high_items pool else low_items pool),
                          (if high then pool\<lparr>high_count := high_count pool - 1,
                                              high_items := tl (high_items pool)\<rparr>
                           else pool\<lparr>low_count := low_count pool - 1,
                                      low_items := tl (low_items pool)\<rparr>), ks4)
                   \<and> nr_total_pages ks4 = nr_total_pages ks - 2 ^ unat (order pool)
                   \<and> (- (2 ^ 63) \<le> sint (nr_total_pages ks) - 2 ^ unat (order pool) \<longrightarrow>
                        sint (nr_total_pages ks4) =
                          sint (nr_total_pages ks) - 2 ^ unat (order pool))"
    if "pool_wf pool" and "if high then high_items pool \<noteq> [] else low_items pool \<noteq> []"
  proof -
    from remove_returns[OF that, of cfg ks] obtain ks4 where
      r: "ion_page_pool_remove cfg pool high ks =
            Inr (hd (if high then high_items pool else low_items pool),
                 (if high then pool\<lparr>high_count := high_count pool - 1,
                                     high_items := tl (high_items pool)\<rparr>
                  else pool\<lparr>low_count := low_count pool - 1,
                             low_items := tl (low_items pool)\<rparr>), ks4)"
      and c: "nr_total_pages ks4 =
                nr_total_pages ks - int_to_long (shl1 (unat (order pool)))"
      by blast
    from c have c': "nr_total_pages ks4 = nr_total_pages ks - 2 ^ unat (order pool)"
      by (simp add: int_to_long_shl1[OF assms])
    with sint_long_sub_2p[OF assms, of "nr_total_pages ks"]
    have "- (2 ^ 63) \<le> sint (nr_total_pages ks) - 2 ^ unat (order pool) \<longrightarrow>
            sint (nr_total_pages ks4) = sint (nr_total_pages ks) - 2 ^ unat (order pool)"
      by simp
    with r c' show ?thesis by blast
  qed
  from add_counter[OF assms] remove_counter[OF assms] pool_run_counter[OF assms]
       nr_pages_nonneg rd wr sa sr rr pool_run_returns[OF assms]
  show ?thesis by blast
qed

text \<open>
  On the pool of order 1 with counter 6: an add gives 8, a remove gives 4, an add
  followed by two removes gives 4; a counter of -4 is read as 0.
\<close>

theorem counter_moves_by_unit_and_reads_nonnegative_witness:
  "unat (order example_full_pool) < 31
   \<and> nr_total_pages (snd (snd (ion_page_pool_add example_mm_config example_full_pool
         (low_page 7) example_full_kstate))) = 8
   \<and> pool_wf example_full_pool
   \<and> (\<exists>ks4. ion_page_pool_remove example_mm_config example_full_pool False example_full_kstate =
          Inr (low_page 1, example_full_pool\<lparr>low_count := 1, low_items := [low_page 2]\<rparr>, ks4)
        \<and> nr_total_pages ks4 = 4 \<and> sint (nr_total_pages ks4) = 4)
   \<and> ops_fit 1 2 [Op_add (low_page 7), Op_remove False, Op_remove True]
   \<and> (\<exists>pool3 ks5. pool_run example_mm_config
          [Op_add (low_page 7), Op_remove False, Op_remove True]
          example_full_pool example_full_kstate = Inr (pool3, ks5)
        \<and> nr_total_pages ks5 = 4)
   \<and> sint (nr_total_pages (example_full_kstate\<lparr>nr_total_pages := - 4\<rparr>)) < 0
   \<and> fst (ion_page_pool_nr_pages (example_full_kstate\<lparr>nr_total_pages := - 4\<rparr>)) = 0
   \<and> nr_total_pages (snd (ion_page_pool_nr_pages (example_full_kstate\<lparr>nr_total_pages := - 4\<rparr>))) = 0"
proof -
  have o: "unat (order example_full_pool) < 31"
    by (simp add: example_full_pool_def)
  have wf: "pool_wf example_full_pool"
    by (simp add: pool_wf_def example_full_pool_def)
  have n: "sint (nr_total_pages (example_full_kstate\<lparr>nr_total_pages := - 4\<rparr>)) < 0"
    by simp
  have fit: "ops_fit (length (high_items example_full_pool)) (length (low_items example_full_pool))
               [Op_add (low_page 7), Op_remove False, Op_remove True]"
    by (simp add: example_full_pool_def low_page_def)
  have fit': "ops_fit 1 2 [Op_add (low_page 7), Op_remove False, Op_remove True]"
    by (simp add: low_page_def)
  have ne: "low_items example_full_pool \<noteq> []"
    by (simp add: example_full_pool_def)
  from counter_moves_by_unit_and_reads_nonnegative [OF o, of example_mm_config "low_page 7" example_full_kstate False _ _ _
         "[Op_add (low_page 7), Op_remove False, Op_remove True]" _ _
         "example_full_kstate\<lparr>nr_total_pages := - 4\<rparr>"]
       o wf n fit fit' ne
  show ?thesis
    by (simp add: example_full_pool_def example_full_kstate_def)
qed

subsection \<open>Allocation from the pool only\<close>

text \<open>
  C2: \<open>ion_page_pool_alloc_pool_only\<close> is to answer a miss with a result of its own,
  distinct from out of memory; the comment above the function says that it "returns
  NULL otherwise". The code does not: on an empty pool with a free lock it returns
  \<open>ERR_PTR(-ENOMEM)\<close>, which is exactly what \<open>ion_page_pool_alloc\<close> returns on the
  same pool when the page allocator has nothing left.
\<close>

theorem pool_only_miss_is_ENOMEM_like_alloc:
  "ion_page_pool_alloc_pool_only example_mm_config True (Some (example_pool 0)) example_kstate =
     Inr (Inl ENOMEM, Some (example_pool 0), example_kstate)
   \<and> ion_page_pool_alloc example_mm_config example_task True (Some (example_pool 0)) True example_kstate =
     Inr (Inl ENOMEM, False, example_pool 0, example_kstate)"
  by (simp add: ion_page_pool_alloc_pool_only_def ion_page_pool_alloc_def example_pool_def
       example_task_def ion_page_pool_alloc_pages_def alloc_pages_def example_kstate_def)

text \<open>
  The other parts hold of the code. On a well-formed pool the function returns the
  first entry of the high list, or of the low list when the high list is empty,
  when the trylock succeeds and there is such an entry, and it never consults the
  page allocator; it fails, leaving the pool and the kernel state as they are,
  exactly when the trylock fails or both lists are empty. A NULL pool is answered
  with \<open>ERR_PTR(-EINVAL)\<close>.
\<close>

theorem alloc_pool_only_result:
  assumes "pool_wf pool"
  shows "ion_page_pool_alloc_pool_only cfg trylock None ks = Inr (Inl EINVAL, None, ks)
       \<and> (trylock \<and> high_items pool \<noteq> [] \<longrightarrow>
            (\<exists>ks1. ion_page_pool_alloc_pool_only cfg trylock (Some pool) ks =
                     Inr (Inr (hd (high_items pool)),
                          Some (pool\<lparr>high_count := high_count pool - 1,
                                     high_items := tl (high_items pool)\<rparr>), ks1)
                   \<and> buddy ks1 = buddy ks))
       \<and> (trylock \<and> high_items pool = [] \<and> low_items pool \<noteq> [] \<longrightarrow>
            (\<exists>ks1. ion_page_pool_alloc_pool_only cfg trylock (Some pool) ks =
                     Inr (Inr (hd (low_items pool)),
                          Some (pool\<lparr>low_count := low_count pool - 1,
                                     low_items := tl (low_items pool)\<rparr>), ks1)
                   \<and> buddy ks1 = buddy ks))
       \<and> (\<not> trylock \<or> (high_items pool = [] \<and> low_items pool = []) \<longrightarrow>
            ion_page_pool_alloc_pool_only cfg trylock (Some pool) ks =
              Inr (Inl ENOMEM, Some pool, ks))"
proof -
  have null: "ion_page_pool_alloc_pool_only cfg trylock None ks = Inr (Inl EINVAL, None, ks)"
    by (simp add: ion_page_pool_alloc_pool_only_def)
  show ?thesis
  proof (cases "high_items pool")
    case (Cons h hs)
    with assms wf_high_nonzero[OF assms] remove_high_wf[OF assms Cons, of cfg ks] null
    show ?thesis
      by (simp add: ion_page_pool_alloc_pool_only_def)
  next
    case hn: Nil
    show ?thesis
    proof (cases "low_items pool")
      case (Cons l ls)
      with hn assms wf_high_nonzero[OF assms] wf_low_nonzero[OF assms]
           remove_low_wf[OF assms Cons, of cfg ks] null
      show ?thesis
        by (simp add: ion_page_pool_alloc_pool_only_def)
    next
      case Nil
      with hn assms wf_high_nonzero[OF assms] wf_low_nonzero[OF assms] null
      show ?thesis
        by (simp add: ion_page_pool_alloc_pool_only_def)
    qed
  qed
qed

theorem alloc_pool_only_result_witness:
  "pool_wf example_full_pool
   \<and> (\<exists>ks1.
         ion_page_pool_alloc_pool_only example_mm_config True (Some example_full_pool)
           example_full_kstate =
           Inr (Inr (high_page 3),
                Some (example_full_pool\<lparr>high_count := 0, high_items := []\<rparr>), ks1)
         \<and> buddy ks1 = buddy example_full_kstate)
   \<and> ion_page_pool_alloc_pool_only example_mm_config False (Some example_full_pool)
         example_full_kstate = Inr (Inl ENOMEM, Some example_full_pool, example_full_kstate)
   \<and> ion_page_pool_alloc_pool_only example_mm_config True None example_full_kstate =
         Inr (Inl EINVAL, None, example_full_kstate)"
proof -
  have wf: "pool_wf example_full_pool"
    by (simp add: pool_wf_def example_full_pool_def)
  have hi: "high_items example_full_pool = [high_page 3]" "high_count example_full_pool = 1"
    by (simp_all add: example_full_pool_def)
  from wf hi alloc_pool_only_result [OF wf, of example_mm_config True example_full_kstate]
       alloc_pool_only_result [OF wf, of example_mm_config False example_full_kstate]
  show ?thesis by simp
qed

subsection \<open>Which entry an allocation takes\<close>

lemma free_wf:
  assumes "pool_wf pool"
    and "Suc (length (high_items pool)) < 2 ^ 32"
    and "Suc (length (low_items pool)) < 2 ^ 32"
  shows "pool_wf (fst (ion_page_pool_free cfg pool pg ks))
       \<and> high_items (fst (ion_page_pool_free cfg pool pg ks)) =
           high_items pool @ (if PageHighMem pg then [pg] else [])
       \<and> low_items (fst (ion_page_pool_free cfg pool pg ks)) =
           low_items pool @ (if PageHighMem pg then [] else [pg])"
  using assms
  by (auto simp add: ion_page_pool_free_def ion_page_pool_add_def Let_def pool_wf_def
        intro: unat_succ)

lemma free_all_items:
  assumes "pool_wf pool"
    and "length (high_items pool) + length pgs < 2 ^ 32"
    and "length (low_items pool) + length pgs < 2 ^ 32"
  shows "pool_wf (fst (ion_page_pool_free_all cfg pool ks pgs))
       \<and> high_items (fst (ion_page_pool_free_all cfg pool ks pgs)) =
           high_items pool @ filter PageHighMem pgs
       \<and> low_items (fst (ion_page_pool_free_all cfg pool ks pgs)) =
           low_items pool @ filter (\<lambda>pg. \<not> PageHighMem pg) pgs"
  using assms
proof (induction pgs arbitrary: pool ks)
  case Nil
  then show ?case by (simp add: ion_page_pool_free_all_def)
next
  case (Cons pg pgs)
  obtain pool1 ks1 where f: "ion_page_pool_free cfg pool pg ks = (pool1, ks1)"
    by (cases "ion_page_pool_free cfg pool pg ks") auto
  from Cons.prems have b: "Suc (length (high_items pool)) < 2 ^ 32"
    "Suc (length (low_items pool)) < 2 ^ 32" by simp_all
  from free_wf[OF Cons.prems(1) b, of cfg pg ks] f
  have wf1: "pool_wf pool1"
    and h1: "high_items pool1 = high_items pool @ (if PageHighMem pg then [pg] else [])"
    and l1: "low_items pool1 = low_items pool @ (if PageHighMem pg then [] else [pg])"
    by simp_all
  from h1 Cons.prems have bh: "length (high_items pool1) + length pgs < 2 ^ 32" by simp
  from l1 Cons.prems have bl: "length (low_items pool1) + length pgs < 2 ^ 32" by simp
  have step: "ion_page_pool_free_all cfg pool ks (pg # pgs) = ion_page_pool_free_all cfg pool1 ks1 pgs"
    using f by (simp add: ion_page_pool_free_all_def)
  from Cons.IH[OF wf1 bh bl, of ks1] h1 l1 show ?case
    unfolding step by simp
qed

lemma alloc_from_wf_pool:
  assumes "pool_wf pool" and "\<not> fatal_signal_pending cur"
  shows "(high_items pool = h # hs \<longrightarrow>
            (\<exists>ks1. ion_page_pool_alloc cfg cur True (Some pool) True ks =
               Inr (Inr h, True, pool\<lparr>high_count := high_count pool - 1, high_items := hs\<rparr>, ks1)
              \<and> buddy ks1 = buddy ks))
       \<and> (high_items pool = [] \<and> low_items pool = l # ls \<longrightarrow>
            (\<exists>ks1. ion_page_pool_alloc cfg cur True (Some pool) True ks =
               Inr (Inr l, True, pool\<lparr>low_count := low_count pool - 1, low_items := ls\<rparr>, ks1)
              \<and> buddy ks1 = buddy ks))"
  using assms wf_high_nonzero[OF assms(1)] wf_low_nonzero[OF assms(1)]
    remove_high_wf[OF assms(1), of h hs cfg ks] remove_low_wf[OF assms(1), of l ls cfg ks]
  by (auto simp add: ion_page_pool_alloc_def)

lemma oldest_cases:
  "oldest_of_highest_tier pgs = Some pg \<Longrightarrow>
   (\<exists>hs. filter PageHighMem pgs = pg # hs)
   \<or> (filter PageHighMem pgs = [] \<and> (\<exists>ls. filter (\<lambda>pg. \<not> PageHighMem pg) pgs = pg # ls))"
  by (auto simp add: oldest_of_highest_tier_def split: list.splits)

lemma alloc_run_fifo:
  assumes "pool_wf pool" and "\<not> fatal_signal_pending cur"
    and "k \<le> length (high_items pool @ low_items pool)"
  shows "\<exists>ks2. alloc_run cfg cur k pool ks =
           Inr (map (\<lambda>pg. (Inr pg, True)) (take k (high_items pool @ low_items pool)),
                pool\<lparr>high_count := high_count pool - of_nat (min k (length (high_items pool))),
                     high_items := drop k (high_items pool),
                     low_count := low_count pool - of_nat (k - length (high_items pool)),
                     low_items := drop (k - length (high_items pool)) (low_items pool)\<rparr>, ks2)
         \<and> buddy ks2 = buddy ks"
  using assms(1,3)
proof (induction k arbitrary: pool ks)
  case 0
  then show ?case by simp
next
  case (Suc k)
  show ?case
  proof (cases "high_items pool")
    case (Cons h hs)
    let ?p1 = "pool\<lparr>high_count := high_count pool - 1, high_items := hs\<rparr>"
    from alloc_from_wf_pool[OF Suc.prems(1) assms(2), of h hs cfg ks] Cons
    obtain ks1 where a: "ion_page_pool_alloc cfg cur True (Some pool) True ks =
        Inr (Inr h, True, ?p1, ks1)" and b1: "buddy ks1 = buddy ks" by blast
    have wf1: "pool_wf ?p1" by (rule wf_after_high[OF Suc.prems(1) Cons])
    from Suc.prems(2) Cons have k1: "k \<le> length (high_items ?p1 @ low_items ?p1)" by simp
    from Suc.IH[OF wf1 k1, of ks1] obtain ks2 where
      r: "alloc_run cfg cur k ?p1 ks1 =
           Inr (map (\<lambda>pg. (Inr pg, True)) (take k (high_items ?p1 @ low_items ?p1)),
                ?p1\<lparr>high_count := high_count ?p1 - of_nat (min k (length (high_items ?p1))),
                     high_items := drop k (high_items ?p1),
                     low_count := low_count ?p1 - of_nat (k - length (high_items ?p1)),
                     low_items := drop (k - length (high_items ?p1)) (low_items ?p1)\<rparr>, ks2)"
      and b2: "buddy ks2 = buddy ks1" by blast
    show ?thesis
      apply (rule exI[of _ ks2])
      using a r b1 b2 Cons by (simp add: algebra_simps)
  next
    case hn: Nil
    with Suc.prems(2) obtain l ls where Cons: "low_items pool = l # ls"
      by (cases "low_items pool") auto
    let ?p1 = "pool\<lparr>low_count := low_count pool - 1, low_items := ls\<rparr>"
    from alloc_from_wf_pool[OF Suc.prems(1) assms(2), of _ _ cfg ks l ls] Cons hn
    obtain ks1 where a: "ion_page_pool_alloc cfg cur True (Some pool) True ks =
        Inr (Inr l, True, ?p1, ks1)" and b1: "buddy ks1 = buddy ks" by blast
    have wf1: "pool_wf ?p1" by (rule wf_after_low[OF Suc.prems(1) Cons])
    from Suc.prems(2) Cons hn have k1: "k \<le> length (high_items ?p1 @ low_items ?p1)" by simp
    from Suc.IH[OF wf1 k1, of ks1] obtain ks2 where
      r: "alloc_run cfg cur k ?p1 ks1 =
           Inr (map (\<lambda>pg. (Inr pg, True)) (take k (high_items ?p1 @ low_items ?p1)),
                ?p1\<lparr>high_count := high_count ?p1 - of_nat (min k (length (high_items ?p1))),
                     high_items := drop k (high_items ?p1),
                     low_count := low_count ?p1 - of_nat (k - length (high_items ?p1)),
                     low_items := drop (k - length (high_items ?p1)) (low_items ?p1)\<rparr>, ks2)"
      and b2: "buddy ks2 = buddy ks1" by blast
    show ?thesis
      apply (rule exI[of _ ks2])
      using a r b1 b2 Cons hn by (simp add: algebra_simps)
  qed
qed

text \<open>
  C5: on every well-formed pool, with no fatal signal pending, the lock free and
  \<open>*from_pool\<close> set, \<open>ion_page_pool_alloc\<close> returns the first entry of the high list
  when there is one, and otherwise the first entry of the low list when there is
  one, and leaves the rest of that list; \<open>*from_pool\<close> stays set and the page
  allocator is not consulted. \<open>k\<close> allocations in a row return the first \<open>k\<close> entries of
  the high list followed by the low list, in this order. A free appends at the tail:
  after freeing the pages \<open>pgs\<close>, in this order, into any well-formed pool, the high
  list is the old high list followed by the high pages of \<open>pgs\<close> and the low list is
  the old low list followed by the low pages of \<open>pgs\<close>, each in the order of the
  frees, so that the allocations that follow return the oldest entry of the highest
  tier that is not empty, one after the other. On an empty pool this is the first
  high page of \<open>pgs\<close>, or the first page of \<open>pgs\<close> when none is high.
\<close>

theorem alloc_takes_oldest_of_highest_tier:
  assumes "pool_wf pool" and "\<not> fatal_signal_pending cur"
  shows "(high_items pool = h # hs \<longrightarrow>
            (\<exists>ks1. ion_page_pool_alloc cfg cur True (Some pool) True ks =
               Inr (Inr h, True, pool\<lparr>high_count := high_count pool - 1, high_items := hs\<rparr>, ks1)
              \<and> buddy ks1 = buddy ks))
       \<and> (high_items pool = [] \<and> low_items pool = l # ls \<longrightarrow>
            (\<exists>ks1. ion_page_pool_alloc cfg cur True (Some pool) True ks =
               Inr (Inr l, True, pool\<lparr>low_count := low_count pool - 1, low_items := ls\<rparr>, ks1)
              \<and> buddy ks1 = buddy ks))
       \<and> (high_items pool = [] \<and> low_items pool = [] \<and> length pgs < 2 ^ 32
            \<and> oldest_of_highest_tier pgs = Some pg \<longrightarrow>
            (\<exists>pool1 ks1.
               ion_page_pool_alloc cfg cur True
                 (Some (fst (ion_page_pool_free_all cfg pool ks pgs))) True
                 (snd (ion_page_pool_free_all cfg pool ks pgs)) =
               Inr (Inr pg, True, pool1, ks1)))
       \<and> (k \<le> length (high_items pool @ low_items pool) \<longrightarrow>
            (\<exists>pool2 ks2.
               alloc_run cfg cur k pool ks =
                 Inr (map (\<lambda>pg. (Inr pg, True)) (take k (high_items pool @ low_items pool)),
                      pool2, ks2)
               \<and> high_items pool2 = drop k (high_items pool)
               \<and> low_items pool2 = drop (k - length (high_items pool)) (low_items pool)
               \<and> buddy ks2 = buddy ks))
       \<and> (length (high_items pool) + length pgs < 2 ^ 32
            \<and> length (low_items pool) + length pgs < 2 ^ 32 \<longrightarrow>
            pool_wf (fst (ion_page_pool_free_all cfg pool ks pgs))
            \<and> high_items (fst (ion_page_pool_free_all cfg pool ks pgs)) =
                high_items pool @ filter PageHighMem pgs
            \<and> low_items (fst (ion_page_pool_free_all cfg pool ks pgs)) =
                low_items pool @ filter (\<lambda>pg. \<not> PageHighMem pg) pgs
            \<and> (k \<le> length ((high_items pool @ filter PageHighMem pgs)
                              @ (low_items pool @ filter (\<lambda>pg. \<not> PageHighMem pg) pgs)) \<longrightarrow>
                 (\<exists>pool2 ks2.
                    alloc_run cfg cur k (fst (ion_page_pool_free_all cfg pool ks pgs))
                      (snd (ion_page_pool_free_all cfg pool ks pgs)) =
                      Inr (map (\<lambda>pg. (Inr pg, True))
                             (take k ((high_items pool @ filter PageHighMem pgs)
                                      @ (low_items pool @ filter (\<lambda>pg. \<not> PageHighMem pg) pgs))),
                           pool2, ks2)
                    \<and> high_items pool2 = drop k (high_items pool @ filter PageHighMem pgs)
                    \<and> low_items pool2 =
                        drop (k - length (high_items pool @ filter PageHighMem pgs))
                          (low_items pool @ filter (\<lambda>pg. \<not> PageHighMem pg) pgs))))"
proof -
  note a = alloc_from_wf_pool[OF assms, of h hs cfg ks l ls]
  have c: "\<exists>pool1 ks1.
               ion_page_pool_alloc cfg cur True
                 (Some (fst (ion_page_pool_free_all cfg pool ks pgs))) True
                 (snd (ion_page_pool_free_all cfg pool ks pgs)) =
               Inr (Inr pg, True, pool1, ks1)"
    if e: "high_items pool = []" "low_items pool = []" and n: "length pgs < 2 ^ 32"
      and o: "oldest_of_highest_tier pgs = Some pg"
  proof -
    let ?p = "fst (ion_page_pool_free_all cfg pool ks pgs)"
    let ?k = "snd (ion_page_pool_free_all cfg pool ks pgs)"
    from free_all_items[OF assms(1), of pgs cfg ks] e n
    have wf: "pool_wf ?p" and hi: "high_items ?p = filter PageHighMem pgs"
      and lo: "low_items ?p = filter (\<lambda>pg. \<not> PageHighMem pg) pgs"
      by simp_all
    from oldest_cases[OF o] show ?thesis
    proof
      assume "\<exists>hs. filter PageHighMem pgs = pg # hs"
      then obtain hs' where "high_items ?p = pg # hs'" using hi by auto
      with alloc_from_wf_pool[OF wf assms(2), of pg hs' cfg ?k] show ?thesis by blast
    next
      assume "filter PageHighMem pgs = [] \<and> (\<exists>ls. filter (\<lambda>pg. \<not> PageHighMem pg) pgs = pg # ls)"
      then obtain ls' where "high_items ?p = []" "low_items ?p = pg # ls'" using hi lo by auto
      with alloc_from_wf_pool[OF wf assms(2), of _ _ cfg ?k pg ls'] show ?thesis by blast
    qed
  qed
  have d: "\<exists>pool2 ks2.
               alloc_run cfg cur k p ks0 =
                 Inr (map (\<lambda>pg. (Inr pg, True)) (take k (high_items p @ low_items p)),
                      pool2, ks2)
               \<and> high_items pool2 = drop k (high_items p)
               \<and> low_items pool2 = drop (k - length (high_items p)) (low_items p)
               \<and> buddy ks2 = buddy ks0"
    if "pool_wf p" and "k \<le> length (high_items p @ low_items p)" for p ks0
  proof -
    from alloc_run_fifo[OF that(1) assms(2) that(2), of cfg ks0] obtain ks2 where
      r: "alloc_run cfg cur k p ks0 =
           Inr (map (\<lambda>pg. (Inr pg, True)) (take k (high_items p @ low_items p)),
                p\<lparr>high_count := high_count p - of_nat (min k (length (high_items p))),
                     high_items := drop k (high_items p),
                     low_count := low_count p - of_nat (k - length (high_items p)),
                     low_items := drop (k - length (high_items p)) (low_items p)\<rparr>, ks2)"
      and b: "buddy ks2 = buddy ks0" by blast
    show ?thesis
      apply (rule exI[of _ "p\<lparr>high_count := high_count p - of_nat (min k (length (high_items p))),
                     high_items := drop k (high_items p),
                     low_count := low_count p - of_nat (k - length (high_items p)),
                     low_items := drop (k - length (high_items p)) (low_items p)\<rparr>"])
      apply (rule exI[of _ ks2])
      using r b by simp
  qed
  have e: "pool_wf (fst (ion_page_pool_free_all cfg pool ks pgs))
            \<and> high_items (fst (ion_page_pool_free_all cfg pool ks pgs)) =
                high_items pool @ filter PageHighMem pgs
            \<and> low_items (fst (ion_page_pool_free_all cfg pool ks pgs)) =
                low_items pool @ filter (\<lambda>pg. \<not> PageHighMem pg) pgs
            \<and> (k \<le> length ((high_items pool @ filter PageHighMem pgs)
                              @ (low_items pool @ filter (\<lambda>pg. \<not> PageHighMem pg) pgs)) \<longrightarrow>
                 (\<exists>pool2 ks2.
                    alloc_run cfg cur k (fst (ion_page_pool_free_all cfg pool ks pgs))
                      (snd (ion_page_pool_free_all cfg pool ks pgs)) =
                      Inr (map (\<lambda>pg. (Inr pg, True))
                             (take k ((high_items pool @ filter PageHighMem pgs)
                                      @ (low_items pool @ filter (\<lambda>pg. \<not> PageHighMem pg) pgs))),
                           pool2, ks2)
                    \<and> high_items pool2 = drop k (high_items pool @ filter PageHighMem pgs)
                    \<and> low_items pool2 =
                        drop (k - length (high_items pool @ filter PageHighMem pgs))
                          (low_items pool @ filter (\<lambda>pg. \<not> PageHighMem pg) pgs)))"
    if room: "length (high_items pool) + length pgs < 2 ^ 32"
             "length (low_items pool) + length pgs < 2 ^ 32"
  proof -
    let ?p = "fst (ion_page_pool_free_all cfg pool ks pgs)"
    let ?k = "snd (ion_page_pool_free_all cfg pool ks pgs)"
    from free_all_items[OF assms(1) room, of cfg ks]
    have wf: "pool_wf ?p" and hi: "high_items ?p = high_items pool @ filter PageHighMem pgs"
      and lo: "low_items ?p = low_items pool @ filter (\<lambda>pg. \<not> PageHighMem pg) pgs"
      by simp_all
    from d[OF wf, of ?k] wf hi lo show ?thesis
      by (simp only: hi lo) blast
  qed
  from a c d[OF assms(1), of ks] e show ?thesis by blast
qed

text \<open>
  Free a low page and a high page into the pool that holds high page 3 and low
  pages 1 and 2: five allocations return 3, 8, 1, 2, 7. Free A (low), then B (low),
  into an empty pool: the allocation returns A.
\<close>

theorem alloc_takes_oldest_of_highest_tier_witness:
  "pool_wf example_full_pool
   \<and> \<not> fatal_signal_pending example_task
   \<and> (\<exists>pool2 ks2.
         alloc_run example_mm_config example_task 5
           (fst (ion_page_pool_free_all example_mm_config example_full_pool example_full_kstate
                   [low_page 7, high_page 8]))
           (snd (ion_page_pool_free_all example_mm_config example_full_pool example_full_kstate
                   [low_page 7, high_page 8])) =
         Inr ([(Inr (high_page 3), True), (Inr (high_page 8), True), (Inr (low_page 1), True),
               (Inr (low_page 2), True), (Inr (low_page 7), True)], pool2, ks2)
         \<and> high_items pool2 = [] \<and> low_items pool2 = [])
   \<and> pool_wf (example_pool 0)
   \<and> oldest_of_highest_tier [low_page 1, low_page 2] = Some (low_page 1)
   \<and> (\<exists>pool1 ks1.
         ion_page_pool_alloc example_mm_config example_task True
           (Some (fst (ion_page_pool_free_all example_mm_config (example_pool 0) example_kstate
                         [low_page 1, low_page 2]))) True
           (snd (ion_page_pool_free_all example_mm_config (example_pool 0) example_kstate
                   [low_page 1, low_page 2])) =
         Inr (Inr (low_page 1), True, pool1, ks1))"
proof -
  have wf: "pool_wf example_full_pool"
    by (simp add: pool_wf_def example_full_pool_def)
  have wf0: "pool_wf (example_pool 0)"
    by (simp add: pool_wf_def example_pool_def)
  have nf: "\<not> fatal_signal_pending example_task"
    by (simp add: example_task_def)
  have e: "high_items (example_pool 0) = []" "low_items (example_pool 0) = []"
    by (simp_all add: example_pool_def)
  have o1: "oldest_of_highest_tier [low_page 1, low_page 2] = Some (low_page 1)"
    by (simp add: oldest_of_highest_tier_def low_page_def)
  have items: "high_items example_full_pool = [high_page 3]"
    "low_items example_full_pool = [low_page 1, low_page 2]"
    by (simp_all add: example_full_pool_def)
  have tiers: "PageHighMem (high_page 8)" "\<not> PageHighMem (low_page 7)"
    by (simp_all add: high_page_def low_page_def)
  from alloc_takes_oldest_of_highest_tier [OF wf nf, of _ _ example_mm_config example_full_kstate _ _
         "[low_page 7, high_page 8]" _ 5]
       alloc_takes_oldest_of_highest_tier [OF wf0 nf, of _ _ example_mm_config example_kstate _ _
         "[low_page 1, low_page 2]" "low_page 1" 0]
       wf wf0 nf e o1
  show ?thesis
    by (simp add: items tiers)
qed

subsection \<open>The shrink loop\<close>

lemma shrink_loop_stop:
  "\<not> freed <s nr \<Longrightarrow> shrink_loop cfg high nr freed pool ks = Inr (freed, pool, ks)"
  by (subst shrink_loop.simps) simp

lemma shrink_loop_empty:
  "low_count pool = 0 \<Longrightarrow> \<not> (high \<and> high_count pool \<noteq> 0) \<Longrightarrow>
   shrink_loop cfg high nr freed pool ks = Inr (freed, pool, ks)"
  by (subst shrink_loop.simps) auto

lemma shrink_loop_low:
  "freed <s nr \<Longrightarrow> pool_wf pool \<Longrightarrow> low_items pool = l # ls \<Longrightarrow>
   shrink_loop cfg high nr freed pool ks =
     shrink_loop cfg high nr (freed + shl1 (unat (order pool)))
       (pool\<lparr>low_count := low_count pool - 1, low_items := ls\<rparr>)
       (ion_page_pool_free_pages (pool\<lparr>low_count := low_count pool - 1, low_items := ls\<rparr>) l
          (mod_node_page_state (page_pgdat l)
            (int_to_long (- shl1 (PAGE_SHIFT cfg + unat (order pool))))
            (ks\<lparr>nr_total_pages := nr_total_pages ks - int_to_long (shl1 (unat (order pool)))\<rparr>)))"
  using wf_low_nonzero[of pool] remove_low_wf[of pool l ls cfg ks]
  by (subst shrink_loop.simps) simp

lemma shrink_loop_high:
  "freed <s nr \<Longrightarrow> pool_wf pool \<Longrightarrow> low_items pool = [] \<Longrightarrow> high \<Longrightarrow>
   high_items pool = h # hs \<Longrightarrow>
   shrink_loop cfg high nr freed pool ks =
     shrink_loop cfg high nr (freed + shl1 (unat (order pool)))
       (pool\<lparr>high_count := high_count pool - 1, high_items := hs\<rparr>)
       (ion_page_pool_free_pages (pool\<lparr>high_count := high_count pool - 1, high_items := hs\<rparr>) h
          (mod_node_page_state (page_pgdat h)
            (int_to_long (- shl1 (PAGE_SHIFT cfg + unat (order pool))))
            (ks\<lparr>nr_total_pages := nr_total_pages ks - int_to_long (shl1 (unat (order pool)))\<rparr>)))"
  using wf_low_nonzero[of pool] wf_high_nonzero[of pool] remove_high_wf[of pool h hs cfg ks]
  by (subst shrink_loop.simps) simp

lemma shrink_loop_run:
  assumes "pool_wf pool"
  shows "\<exists>k ks'.
           shrink_loop cfg high nr freed pool ks =
             Inr (freed + of_nat k * shl1 (unat (order pool)), pool_after_evictions k pool, ks')
         \<and> k \<le> length (eligible pool high)
         \<and> buddy ks' = buddy ks @ take k (eligible pool high)
         \<and> nr_total_pages ks' =
             nr_total_pages ks - of_nat k * int_to_long (shl1 (unat (order pool)))
         \<and> (\<forall>j<k. freed + of_nat j * shl1 (unat (order pool)) <s nr)
         \<and> (k = length (eligible pool high)
              \<or> \<not> freed + of_nat k * shl1 (unat (order pool)) <s nr)"
  using assms
proof (induction "length (eligible pool high)" arbitrary: pool ks freed)
  case 0
  then have e: "low_items pool = []" "\<not> (high \<and> high_items pool \<noteq> [])"
    by (auto simp add: eligible_def split: if_splits)
  with 0 have "low_count pool = 0" "\<not> (high \<and> high_count pool \<noteq> 0)"
    using wf_low_nonzero[of pool] wf_high_nonzero[of pool] by auto
  from shrink_loop_empty[OF this] e 0 show ?case
    by (intro exI[of _ 0] exI[of _ ks]) (simp add: pool_after_evictions_def eligible_def)
next
  case (Suc n)
  show ?case
  proof (cases "freed <s nr")
    case False
    from shrink_loop_stop[OF False] False show ?thesis
      by (intro exI[of _ 0] exI[of _ ks]) (simp add: pool_after_evictions_def)
  next
    case scan: True
    let ?u = "shl1 (unat (order pool))"
    show ?thesis
    proof (cases "low_items pool")
      case (Cons l ls)
      let ?p1 = "pool\<lparr>low_count := low_count pool - 1, low_items := ls\<rparr>"
      let ?k1 = "ion_page_pool_free_pages ?p1 l
          (mod_node_page_state (page_pgdat l)
            (int_to_long (- shl1 (PAGE_SHIFT cfg + unat (order pool))))
            (ks\<lparr>nr_total_pages := nr_total_pages ks - int_to_long ?u\<rparr>))"
      have wf1: "pool_wf ?p1" by (rule wf_after_low[OF Suc.prems Cons])
      have el: "eligible pool high = l # eligible ?p1 high"
        using Cons by (simp add: eligible_def)
      with Suc.hyps(2) have n: "n = length (eligible ?p1 high)" by simp
      from Suc.hyps(1)[OF n wf1, of "freed + ?u" ?k1]
      obtain k ks' where
        r: "shrink_loop cfg high nr (freed + ?u) ?p1 ?k1 =
              Inr (freed + ?u + of_nat k * ?u, pool_after_evictions k ?p1, ks')"
        and le: "k \<le> length (eligible ?p1 high)"
        and b: "buddy ks' = buddy ?k1 @ take k (eligible ?p1 high)"
        and c: "nr_total_pages ks' = nr_total_pages ?k1 - of_nat k * int_to_long ?u"
        and lt: "\<forall>j<k. freed + ?u + of_nat j * ?u <s nr"
        and st: "k = length (eligible ?p1 high) \<or> \<not> freed + ?u + of_nat k * ?u <s nr"
        by auto
      have pe: "pool_after_evictions (Suc k) pool = pool_after_evictions k ?p1"
        using Cons by (simp add: pool_after_evictions_def)
      have lt': "\<forall>j<Suc k. freed + of_nat j * ?u <s nr"
      proof (intro allI impI)
        fix j assume "j < Suc k"
        show "freed + of_nat j * ?u <s nr"
        proof (cases j)
          case 0 with scan show ?thesis by simp
        next
          case (Suc j')
          with \<open>j < Suc k\<close> lt have "freed + ?u + of_nat j' * ?u <s nr" by simp
          then show ?thesis using Suc by (simp add: algebra_simps)
        qed
      qed
      show ?thesis
        apply (rule exI[of _ "Suc k"], rule exI[of _ ks'])
        using shrink_loop_low[OF scan Suc.prems Cons, of cfg high ks] r le b c lt' st pe el
        by (simp add: algebra_simps)
    next
      case ln: Nil
      show ?thesis
      proof (cases "high \<and> high_items pool \<noteq> []")
        case False
        with ln Suc.hyps(2) show ?thesis by (auto simp add: eligible_def)
      next
        case True
        then obtain h hs where hi: "high_items pool = h # hs" and high: high
          by (cases "high_items pool") auto
        let ?p1 = "pool\<lparr>high_count := high_count pool - 1, high_items := hs\<rparr>"
        let ?k1 = "ion_page_pool_free_pages ?p1 h
          (mod_node_page_state (page_pgdat h)
            (int_to_long (- shl1 (PAGE_SHIFT cfg + unat (order pool))))
            (ks\<lparr>nr_total_pages := nr_total_pages ks - int_to_long ?u\<rparr>))"
        have wf1: "pool_wf ?p1" by (rule wf_after_high[OF Suc.prems hi])
        have el: "eligible pool high = h # eligible ?p1 high"
          using ln hi high by (simp add: eligible_def)
        with Suc.hyps(2) have n: "n = length (eligible ?p1 high)" by simp
        from Suc.hyps(1)[OF n wf1, of "freed + ?u" ?k1]
        obtain k ks' where
          r: "shrink_loop cfg high nr (freed + ?u) ?p1 ?k1 =
                Inr (freed + ?u + of_nat k * ?u, pool_after_evictions k ?p1, ks')"
          and le: "k \<le> length (eligible ?p1 high)"
          and b: "buddy ks' = buddy ?k1 @ take k (eligible ?p1 high)"
          and c: "nr_total_pages ks' = nr_total_pages ?k1 - of_nat k * int_to_long ?u"
          and lt: "\<forall>j<k. freed + ?u + of_nat j * ?u <s nr"
          and st: "k = length (eligible ?p1 high) \<or> \<not> freed + ?u + of_nat k * ?u <s nr"
          by auto
        have pe: "pool_after_evictions (Suc k) pool = pool_after_evictions k ?p1"
          using ln hi by (simp add: pool_after_evictions_def)
        have lt': "\<forall>j<Suc k. freed + of_nat j * ?u <s nr"
        proof (intro allI impI)
          fix j assume "j < Suc k"
          show "freed + of_nat j * ?u <s nr"
          proof (cases j)
            case 0 with scan show ?thesis by simp
          next
            case (Suc j')
            with \<open>j < Suc k\<close> lt have "freed + ?u + of_nat j' * ?u <s nr" by simp
            then show ?thesis using Suc by (simp add: algebra_simps)
          qed
        qed
        show ?thesis
          apply (rule exI[of _ "Suc k"], rule exI[of _ ks'])
          using shrink_loop_high[OF scan Suc.prems ln high hi, of cfg ks] r le b c lt' st pe el
          by (simp add: algebra_simps)
      qed
    qed
  qed
qed

lemma round_up_ge: "0 < unit \<Longrightarrow> n \<le> round_up unit n"
proof -
  assume u: "0 < unit"
  have "n + unit - 1 = (n + unit - 1) div unit * unit + (n + unit - 1) mod unit"
    by simp
  moreover have "(n + unit - 1) mod unit \<le> unit - 1"
    using u pos_mod_bound[of unit "n + unit - 1"] by linarith
  ultimately show ?thesis unfolding round_up_def by linarith
qed

lemma round_up_dvd: "unit dvd round_up unit n"
  by (simp add: round_up_def)

lemma multiple_below_round_up:
  assumes "0 < unit" and "unit dvd m" and "m < n"
  shows "m + unit \<le> round_up unit n"
proof -
  from assms(2) obtain a where a: "m = unit * a" by (auto simp: dvd_def)
  obtain b where b: "round_up unit n = unit * b" using round_up_dvd[of unit n] by (auto simp: dvd_def)
  from assms(3) round_up_ge[OF assms(1), of n] have "m < round_up unit n" by linarith
  with a b assms(1) have "a < b" by (simp add: mult_less_cancel_left_pos)
  then have "a + 1 \<le> b" by simp
  with assms(1) have "unit * (a + 1) \<le> unit * b" by (simp add: mult_le_cancel_left_pos del: distrib_left_numeral)
  with a b show ?thesis by (simp add: algebra_simps)
qed

lemma sint_32_cases: "sint (w :: 32 word) = uint w \<or> sint w = uint w - 2 ^ 32"
  by (simp add: sint_uint signed_take_bit_eq_take_bit_minus take_bit_int_eq_self_iff[THEN iffD2] uint_lt2p[where 'a=32, simplified])

lemma dvd_sint_mult_2p:
  assumes "n \<le> 32"
  shows "(2::int) ^ n dvd sint ((a :: 32 word) * 2 ^ n)"
proof -
  have d32: "(2::int) ^ n dvd 2 ^ 32"
    using assms by (rule le_imp_power_dvd)
  have "a * 2 ^ n = (word_of_int (uint a * 2 ^ n) :: 32 word)"
    by simp
  then have "uint (a * 2 ^ n :: 32 word) = (uint a * 2 ^ n) mod 2 ^ 32"
    by (simp only: uint_word_of_int) simp
  moreover have "(2::int) ^ n dvd (uint a * 2 ^ n) mod 2 ^ 32"
    using d32 by (simp add: dvd_mod)
  ultimately have "(2::int) ^ n dvd uint (a * 2 ^ n :: 32 word)" by simp
  with d32 sint_32_cases[of "a * 2 ^ n"] show ?thesis
    by (auto simp add: dvd_diff simp del: power_numeral)
qed

lemma round_up_passes: "0 < unit \<Longrightarrow> 0 < n \<Longrightarrow> round_up unit n = int (passes_needed unit n) * unit"
proof -
  assume "0 < unit" "0 < n"
  then have "0 \<le> (n + unit - 1) div unit"
    by (simp add: pos_imp_zdiv_nonneg_iff)
  then show ?thesis by (simp add: round_up_def passes_needed_def)
qed

lemma sint_add_2p_le:
  assumes "n < 31"
  shows "sint ((w :: 32 word) + 2 ^ n) \<le> sint w + 2 ^ n"
proof -
  have "sint (w + 2 ^ n) = signed_take_bit 31 (sint w + sint ((2::32 word) ^ n))"
    by (simp add: sint_word_ariths)
  also have "\<dots> = signed_take_bit 31 (sint w + 2 ^ n)"
    using assms by (simp only: sint_2p_32)
  also have "\<dots> \<le> sint w + 2 ^ n"
  proof -
    have "- (2 ^ 31) \<le> sint w" using sint_ge[of w] by simp
    moreover have "(0::int) \<le> 2 ^ n" by simp
    ultimately have "- (2 ^ 31) \<le> sint w + 2 ^ n" by linarith
    then show ?thesis by (simp only: signed_take_bit_int_less_eq_self_iff)
  qed
  finally show ?thesis .
qed

lemma sint_of_nat_mult_2p:
  assumes "int j * 2 ^ n < 2 ^ 31"
  shows "sint ((of_nat j :: 32 word) * 2 ^ n) = int j * 2 ^ n"
proof -
  have "(of_nat j :: 32 word) * 2 ^ n = word_of_int (int j * 2 ^ n)"
    by simp
  then have "sint ((of_nat j :: 32 word) * 2 ^ n) = signed_take_bit 31 (int j * 2 ^ n)"
    by (simp only: sint_sbintrunc') simp
  also have "\<dots> = int j * 2 ^ n"
  proof (rule signed_take_bit_int_eq_self)
    show "- (2 ^ 31) \<le> int j * 2 ^ n"
      by (rule order_trans[of _ 0]) simp_all
    show "int j * 2 ^ n < 2 ^ 31" by (rule assms)
  qed
  finally show ?thesis .
qed

lemma shrink_bound:
  fixes nr :: c_int
  assumes o: "n < 31" and pos: "0 < sint nr"
    and lt: "\<forall>j<k. sint ((of_nat j :: c_int) * 2 ^ n) < sint nr"
  shows "sint ((of_nat k :: c_int) * 2 ^ n) \<le> round_up (2 ^ n) (sint nr)"
proof (cases k)
  case 0
  with pos round_up_ge[of "2 ^ n" "sint nr"] show ?thesis by simp
next
  case (Suc j)
  let ?prev = "(of_nat j :: c_int) * 2 ^ n"
  from lt Suc have "sint ?prev < sint nr" by simp
  moreover have "(2::int) ^ n dvd sint ?prev"
    using o by (intro dvd_sint_mult_2p) simp
  ultimately have "sint ?prev + 2 ^ n \<le> round_up (2 ^ n) (sint nr)"
    by (intro multiple_below_round_up) simp_all
  moreover have "(of_nat k :: c_int) * 2 ^ n = ?prev + 2 ^ n"
    using Suc by (simp add: algebra_simps)
  ultimately show ?thesis
    using sint_add_2p_le[OF o, of ?prev] by simp
qed

lemma shrink_exact:
  fixes nr :: c_int
  assumes pos: "0 < sint nr"
    and le: "k \<le> m"
    and lt: "\<forall>j<k. sint ((of_nat j :: c_int) * 2 ^ n) < sint nr"
    and st: "k = m \<or> sint nr \<le> sint ((of_nat k :: c_int) * 2 ^ n)"
    and fit: "int (min (passes_needed (2 ^ n) (sint nr)) m) * 2 ^ n < 2 ^ 31"
  shows "k = min (passes_needed (2 ^ n) (sint nr)) m
       \<and> sint ((of_nat k :: c_int) * 2 ^ n) = int k * 2 ^ n"
proof -
  let ?need = "passes_needed (2 ^ n) (sint nr)"
  let ?k' = "min ?need m"
  have ru: "sint nr \<le> int ?need * 2 ^ n"
    using round_up_ge[of "2 ^ n" "sint nr"] round_up_passes[of "2 ^ n" "sint nr"] pos by simp
  have small: "sint ((of_nat j :: c_int) * 2 ^ n) = int j * 2 ^ n" if "j \<le> ?k'" for j
  proof -
    from that have "int j * 2 ^ n \<le> int ?k' * 2 ^ n"
      by (simp add: mult_right_mono)
    with fit have "int j * 2 ^ n < 2 ^ 31" by linarith
    then show ?thesis by (rule sint_of_nat_mult_2p)
  qed
  have kle: "k \<le> ?k'"
  proof (rule ccontr)
    assume "\<not> k \<le> ?k'"
    then have g: "?k' < k" by linarith
    with le have "?k' < m" by linarith
    then have eq: "?k' = ?need" by linarith
    from lt g have "sint ((of_nat ?k' :: c_int) * 2 ^ n) < sint nr" by blast
    with small[of ?k'] have "int ?k' * 2 ^ n < sint nr" by simp
    with eq ru show False by simp
  qed
  have keq: "k = ?k'"
  proof (cases "k = m")
    case True
    with kle show ?thesis by simp
  next
    case False
    with st have "sint nr \<le> sint ((of_nat k :: c_int) * 2 ^ n)" by simp
    with small[OF kle] have ge: "sint nr \<le> int k * 2 ^ n" by simp
    have "?need \<le> k"
    proof (rule ccontr)
      assume "\<not> ?need \<le> k"
      then have "int k + 1 \<le> int ?need" by simp
      define d where "d = (2::int) ^ n"
      define q where "q = (sint nr + d - 1) div d"
      have dpos: "0 < d" by (simp add: d_def)
      from \<open>int k + 1 \<le> int ?need\<close> have a: "int k \<le> q - 1"
        by (simp add: passes_needed_def q_def d_def split: if_splits)
      have "q * d + (sint nr + d - 1) mod d = sint nr + d - 1"
        unfolding q_def by (rule div_mult_mod_eq)
      moreover have "0 \<le> (sint nr + d - 1) mod d"
        using dpos by simp
      ultimately have "q * d \<le> sint nr + d - 1" by linarith
      moreover from a dpos have "int k * d \<le> (q - 1) * d"
        by (simp add: mult_right_mono)
      moreover have "(q - 1) * d = q * d - d"
        by (simp add: algebra_simps)
      ultimately have "int k * 2 ^ n \<le> sint nr - 1"
        unfolding d_def by linarith
      with ge show False by simp
    qed
    with kle show ?thesis by simp
  qed
  with small[OF kle] show ?thesis by simp
qed

text \<open>
  C4: let the pool be well-formed, its order below 31 and \<open>nr_to_scan > 0\<close>, and let
  the caller be privileged for the high list when it is kswapd or the mask has
  \<open>__GFP_HIGHMEM\<close>. Then \<open>ion_page_pool_shrink\<close> returns, after some number \<open>k\<close> of
  passes, and
  \<^item> the pages it hands back to the page allocator are the first \<open>k\<close> entries of the
    low list followed by the high list (of the low list alone for an unprivileged
    caller), in this order: no high entry goes before the low list is empty, and
    none goes at all for an unprivileged caller; the pool is left without them;
  \<open>nr_total_pages\<close> drops by \<open>k * 2 ^ order\<close>;
  \<^item> the value returned is \<open>freed = k * 2 ^ order\<close> as a C \<open>int\<close>; every pass was
    entered with \<open>freed < nr_to_scan\<close>, and the loop stopped because either all
    eligible entries are gone or \<open>freed\<close> has reached \<open>nr_to_scan\<close>;
  \<^item> the value returned is at most \<open>nr_to_scan\<close> rounded up to the next multiple of
    \<open>2 ^ order\<close>;
  \<^item> when the smaller of the eligible entries and the passes needed for the budget,
    times \<open>2 ^ order\<close>, fits an \<open>int\<close>, then \<open>k\<close> is exactly that smaller number and
    the value returned is \<open>k * 2 ^ order\<close> without wrap-around.
\<close>

theorem shrink_drains_low_first_within_budget:
  assumes "pool_wf pool" and "unat (order pool) < 31" and "0 <s nr_to_scan"
  shows "\<exists>k ks'.
           ion_page_pool_shrink cfg cur pool gfp_flags nr_to_scan ks =
             Inr (of_nat k * 2 ^ unat (order pool), pool_after_evictions k pool, ks')
         \<and> k \<le> length (eligible pool (current_is_kswapd cur \<or> gfp_flags AND GFP_HIGHMEM cfg \<noteq> 0))
         \<and> buddy ks' = buddy ks @
               take k (eligible pool (current_is_kswapd cur \<or> gfp_flags AND GFP_HIGHMEM cfg \<noteq> 0))
         \<and> nr_total_pages ks' = nr_total_pages ks - of_nat k * 2 ^ unat (order pool)
         \<and> (\<forall>j<k. sint (of_nat j * 2 ^ unat (order pool) :: c_int) < sint nr_to_scan)
         \<and> (k = length (eligible pool (current_is_kswapd cur \<or> gfp_flags AND GFP_HIGHMEM cfg \<noteq> 0))
              \<or> sint nr_to_scan \<le> sint (of_nat k * 2 ^ unat (order pool) :: c_int))
         \<and> sint (of_nat k * 2 ^ unat (order pool) :: c_int)
              \<le> round_up (2 ^ unat (order pool)) (sint nr_to_scan)
         \<and> (int (min (passes_needed (2 ^ unat (order pool)) (sint nr_to_scan))
                    (length (eligible pool
                       (current_is_kswapd cur \<or> gfp_flags AND GFP_HIGHMEM cfg \<noteq> 0))))
                * 2 ^ unat (order pool) < 2 ^ 31 \<longrightarrow>
              k = min (passes_needed (2 ^ unat (order pool)) (sint nr_to_scan))
                    (length (eligible pool
                       (current_is_kswapd cur \<or> gfp_flags AND GFP_HIGHMEM cfg \<noteq> 0)))
              \<and> sint (of_nat k * 2 ^ unat (order pool) :: c_int) = int k * 2 ^ unat (order pool))"
proof -
  let ?high = "current_is_kswapd cur \<or> gfp_flags AND GFP_HIGHMEM cfg \<noteq> 0"
  let ?n = "unat (order pool)"
  from assms(3) have pos: "0 < sint nr_to_scan"
    by (simp add: word_sless_alt)
  then have nz: "nr_to_scan \<noteq> 0" by auto
  have sh: "ion_page_pool_shrink cfg cur pool gfp_flags nr_to_scan ks =
              shrink_loop cfg ?high nr_to_scan 0 pool ks"
    using nz by (simp add: ion_page_pool_shrink_def Let_def)
  from shrink_loop_run[OF assms(1), of cfg ?high nr_to_scan 0 ks]
  obtain k ks' where
    r: "shrink_loop cfg ?high nr_to_scan 0 pool ks =
          Inr (0 + of_nat k * shl1 ?n, pool_after_evictions k pool, ks')"
    and le: "k \<le> length (eligible pool ?high)"
    and b: "buddy ks' = buddy ks @ take k (eligible pool ?high)"
    and c: "nr_total_pages ks' = nr_total_pages ks - of_nat k * int_to_long (shl1 ?n)"
    and lt: "\<forall>j<k. 0 + of_nat j * shl1 ?n <s nr_to_scan"
    and st: "k = length (eligible pool ?high) \<or> \<not> 0 + of_nat k * shl1 ?n <s nr_to_scan"
    by blast
  from lt have lt': "\<forall>j<k. sint (of_nat j * 2 ^ ?n :: c_int) < sint nr_to_scan"
    by (simp add: shl1_eq word_sless_alt)
  from st have st': "k = length (eligible pool ?high)
      \<or> sint nr_to_scan \<le> sint (of_nat k * 2 ^ ?n :: c_int)"
    by (simp add: shl1_eq word_sless_alt not_less)
  from r sh have r': "ion_page_pool_shrink cfg cur pool gfp_flags nr_to_scan ks =
      Inr (of_nat k * 2 ^ ?n, pool_after_evictions k pool, ks')"
    by (simp add: shl1_eq)
  from c have c': "nr_total_pages ks' = nr_total_pages ks - of_nat k * 2 ^ ?n"
    by (simp add: int_to_long_shl1[OF assms(2)])
  note bd = shrink_bound[OF assms(2) pos lt']
  have ex: "int (min (passes_needed (2 ^ ?n) (sint nr_to_scan)) (length (eligible pool ?high)))
                * 2 ^ ?n < 2 ^ 31 \<longrightarrow>
              k = min (passes_needed (2 ^ ?n) (sint nr_to_scan)) (length (eligible pool ?high))
              \<and> sint (of_nat k * 2 ^ ?n :: c_int) = int k * 2 ^ ?n"
    using shrink_exact[OF pos le lt' st'] by blast
  from r' le b c' lt' st' bd ex show ?thesis by blast
qed

theorem shrink_drains_low_first_within_budget_witness:
  "pool_wf example_full_pool
   \<and> unat (order example_full_pool) < 31
   \<and> (0 :: c_int) <s 3
   \<and> (\<exists>ks'. ion_page_pool_shrink example_mm_config kswapd_task example_full_pool 0 3
                example_full_kstate =
                Inr (4, example_full_pool\<lparr>low_count := 0, low_items := []\<rparr>, ks')
              \<and> buddy ks' = [low_page 1, low_page 2]
              \<and> nr_total_pages ks' = 2)"
proof -
  have wf: "pool_wf example_full_pool"
    by (simp add: pool_wf_def example_full_pool_def)
  have o: "unat (order example_full_pool) < 31"
    by (simp add: example_full_pool_def)
  have pos: "(0 :: c_int) <s 3"
    by (simp add: word_sless_alt)
  have el: "eligible example_full_pool
              (current_is_kswapd kswapd_task \<or> (0 :: c_uint) AND GFP_HIGHMEM example_mm_config \<noteq> 0)
            = [low_page 1, low_page 2, high_page 3]"
    by (simp add: eligible_def kswapd_task_def example_full_pool_def)
  have need: "passes_needed (2 ^ unat (order example_full_pool)) (sint (3 :: c_int)) = 2"
    by (simp add: passes_needed_def example_full_pool_def)
  from shrink_drains_low_first_within_budget [OF wf o pos, of example_mm_config kswapd_task 0
         example_full_kstate]
  obtain k ks' where
    r: "ion_page_pool_shrink example_mm_config kswapd_task example_full_pool 0 3
          example_full_kstate =
        Inr (of_nat k * 2 ^ unat (order example_full_pool),
             pool_after_evictions k example_full_pool, ks')"
    and b: "buddy ks' = buddy example_full_kstate @ take k (eligible example_full_pool
              (current_is_kswapd kswapd_task \<or> (0 :: c_uint) AND GFP_HIGHMEM example_mm_config \<noteq> 0))"
    and c: "nr_total_pages ks' =
              nr_total_pages example_full_kstate - of_nat k * 2 ^ unat (order example_full_pool)"
    and ex: "int (min (passes_needed (2 ^ unat (order example_full_pool)) (sint (3 :: c_int)))
                   (length (eligible example_full_pool
                      (current_is_kswapd kswapd_task
                        \<or> (0 :: c_uint) AND GFP_HIGHMEM example_mm_config \<noteq> 0))))
               * 2 ^ unat (order example_full_pool) < 2 ^ 31 \<longrightarrow>
             k = min (passes_needed (2 ^ unat (order example_full_pool)) (sint (3 :: c_int)))
                   (length (eligible example_full_pool
                      (current_is_kswapd kswapd_task
                        \<or> (0 :: c_uint) AND GFP_HIGHMEM example_mm_config \<noteq> 0)))
             \<and> sint (of_nat k * 2 ^ unat (order example_full_pool) :: c_int)
                 = int k * 2 ^ unat (order example_full_pool)"
    by blast
  from ex have k: "k = 2"
    unfolding need el by (simp add: example_full_pool_def)
  have pe: "pool_after_evictions 2 example_full_pool =
              example_full_pool\<lparr>low_count := 0, low_items := []\<rparr>"
    by (simp add: pool_after_evictions_def example_full_pool_def)
  from r b c show ?thesis
    unfolding k el pe using wf o pos
    by (simp add: example_full_pool_def example_full_kstate_def)
qed

subsection \<open>Totals, a round trip and the invariant\<close>

text \<open>
  \<open>ion_page_pool_total\<close> without the high tier is the low count shifted by the
  order, whatever the high list holds; with it, the sum of both counts shifted. A
  pool of order 2 with three low and two high pages totals 12 and 20.
\<close>

theorem total_leaves_out_high_tier:
  "ion_page_pool_total pool False = push_bit (unat (order pool)) (low_count pool)
   \<and> ion_page_pool_total pool True =
       push_bit (unat (order pool)) (low_count pool + high_count pool)
   \<and> ion_page_pool_total (pool\<lparr>high_count := hc, high_items := hs\<rparr>) False =
       ion_page_pool_total pool False
   \<and> ion_page_pool_total
       ((example_pool 2)\<lparr>low_count := 3, high_count := 2,
           low_items := [low_page 1, low_page 2, low_page 3],
           high_items := [high_page 4, high_page 5]\<rparr>) False = 12
   \<and> ion_page_pool_total
       ((example_pool 2)\<lparr>low_count := 3, high_count := 2,
           low_items := [low_page 1, low_page 2, low_page 3],
           high_items := [high_page 4, high_page 5]\<rparr>) True = 20"
  by (simp add: ion_page_pool_total_def example_pool_def)

text \<open>
  On an empty pool of order 0 \<open>ion_page_pool_alloc_pool_only\<close> fails with
  \<open>-ENOMEM\<close>; after one \<open>ion_page_pool_free\<close> it returns the page that was freed,
  and the pool is empty again, with the page counter and the page allocator as they
  were before the free.
\<close>

theorem pool_only_round_trip:
  "ion_page_pool_alloc_pool_only cfg True
       (Some \<lparr>high_count = 0, low_count = 0, high_items = [], low_items = [],
              gfp_mask = g, order = 0, cached = c, list_prio = p\<rparr>) ks =
     Inr (Inl ENOMEM,
          Some \<lparr>high_count = 0, low_count = 0, high_items = [], low_items = [],
                gfp_mask = g, order = 0, cached = c, list_prio = p\<rparr>, ks)
   \<and> (\<exists>ks'. ion_page_pool_alloc_pool_only cfg True
         (Some (fst (ion_page_pool_free cfg
            \<lparr>high_count = 0, low_count = 0, high_items = [], low_items = [],
              gfp_mask = g, order = 0, cached = c, list_prio = p\<rparr> pg ks)))
         (snd (ion_page_pool_free cfg
            \<lparr>high_count = 0, low_count = 0, high_items = [], low_items = [],
              gfp_mask = g, order = 0, cached = c, list_prio = p\<rparr> pg ks)) =
       Inr (Inr pg,
            Some \<lparr>high_count = 0, low_count = 0, high_items = [], low_items = [],
                  gfp_mask = g, order = 0, cached = c, list_prio = p\<rparr>, ks')
       \<and> nr_total_pages ks' = nr_total_pages ks \<and> buddy ks' = buddy ks)"
  by (cases "PageHighMem pg")
     (simp_all add: ion_page_pool_alloc_pool_only_def ion_page_pool_free_def
        ion_page_pool_add_def ion_page_pool_remove_def Let_def mod_node_page_state_def
        shl1_def int_to_long_def)

lemma unat_sub_of_nat:
  assumes "unat (c :: 32 word) = n" and "m \<le> n"
  shows "unat (c - of_nat m) = n - m"
proof -
  have lt: "n < 2 ^ 32" using assms(1) unsigned_less[of c, where ?'a = nat] by simp
  have "of_nat (unat c) = c" by simp
  with assms(1) have "c = of_nat n" by simp
  then have "c - of_nat m = of_nat (n - m)"
    using assms(2) by (simp add: of_nat_diff)
  moreover have "n - m < 2 ^ 32" using lt by simp
  ultimately show ?thesis by (simp add: unat_of_nat take_bit_nat_eq_self)
qed

lemma pool_after_evictions_wf:
  assumes "pool_wf pool" and "k \<le> length (eligible pool high)"
  shows "pool_wf (pool_after_evictions k pool)"
proof -
  let ?L = "length (low_items pool)"
  let ?H = "length (high_items pool)"
  from assms(1) have l: "unat (low_count pool) = ?L" and h: "unat (high_count pool) = ?H"
    by (simp_all add: pool_wf_def)
  from assms(2) have "k - ?L \<le> ?H"
    by (simp add: eligible_def split: if_splits)
  from unat_sub_of_nat[OF h this] unat_sub_of_nat[OF l, of "min k ?L"]
  show ?thesis
    by (simp add: pool_wf_def pool_after_evictions_def min_def)
qed

text \<open>
  The invariant \<open>pool_wf\<close> (each count is the length of its list) is kept by
  \<open>ion_page_pool_free\<close> as long as the lists stay shorter than \<open>2 ^ 32\<close>, by both
  allocation functions, and by \<open>ion_page_pool_shrink\<close>, which always returns on a
  well-formed pool.
\<close>

theorem pool_wf_is_preserved:
  assumes "pool_wf pool"
  shows "(Suc (length (high_items pool)) < 2 ^ 32 \<and> Suc (length (low_items pool)) < 2 ^ 32 \<longrightarrow>
            pool_wf (fst (ion_page_pool_free cfg pool pg ks)))
       \<and> (ion_page_pool_alloc cfg cur trylock (Some pool) from_pool ks = Inr (r1, fp, pool1, ks1) \<longrightarrow>
            pool_wf pool1)
       \<and> (ion_page_pool_alloc_pool_only cfg trylock (Some pool) ks = Inr (r2, Some pool2, ks2) \<longrightarrow>
            pool_wf pool2)
       \<and> (\<exists>n pool3 ks3. ion_page_pool_shrink cfg cur pool gfp_flags nr_to_scan ks = Inr (n, pool3, ks3)
            \<and> pool_wf pool3)"
proof -
  have a: "Suc (length (high_items pool)) < 2 ^ 32 \<and> Suc (length (low_items pool)) < 2 ^ 32 \<longrightarrow>
            pool_wf (fst (ion_page_pool_free cfg pool pg ks))"
    using free_wf[OF assms, of cfg pg ks] by blast
  have rm: "pool_wf p1" if "ion_page_pool_remove cfg pool hi ks = Inr (x, p1, k1)" for hi x p1 k1
  proof (cases hi)
    case True
    with that obtain hs where "high_items pool = x # hs"
      by (auto simp add: ion_page_pool_remove_def Let_def split: if_splits list.splits)
    with that True remove_high_wf[OF assms this, of cfg ks] wf_after_high[OF assms this]
    show ?thesis by simp
  next
    case False
    with that obtain ls where "low_items pool = x # ls"
      by (auto simp add: ion_page_pool_remove_def Let_def split: if_splits list.splits)
    with that False remove_low_wf[OF assms this, of cfg ks] wf_after_low[OF assms this]
    show ?thesis by simp
  qed
  have b: "ion_page_pool_alloc cfg cur trylock (Some pool) from_pool ks = Inr (r1, fp, pool1, ks1) \<longrightarrow>
            pool_wf pool1"
    using assms rm
    by (auto simp add: ion_page_pool_alloc_def
             split: if_splits sum.splits prod.splits option.splits)
  have c: "ion_page_pool_alloc_pool_only cfg trylock (Some pool) ks = Inr (r2, Some pool2, ks2) \<longrightarrow>
            pool_wf pool2"
    using assms rm
    by (auto simp add: ion_page_pool_alloc_pool_only_def
             split: if_splits sum.splits prod.splits option.splits)
  have d: "\<exists>n pool3 ks3. ion_page_pool_shrink cfg cur pool gfp_flags nr_to_scan ks = Inr (n, pool3, ks3)
            \<and> pool_wf pool3"
  proof (cases "nr_to_scan = 0")
    case True
    with assms show ?thesis by (simp add: ion_page_pool_shrink_def Let_def)
  next
    case False
    let ?high = "current_is_kswapd cur \<or> gfp_flags AND GFP_HIGHMEM cfg \<noteq> 0"
    from shrink_loop_run[OF assms, of cfg ?high nr_to_scan 0 ks]
    obtain k ks' where
      "shrink_loop cfg ?high nr_to_scan 0 pool ks =
         Inr (0 + of_nat k * shl1 (unat (order pool)), pool_after_evictions k pool, ks')"
      and "k \<le> length (eligible pool ?high)"
      by blast
    moreover have "ion_page_pool_shrink cfg cur pool gfp_flags nr_to_scan ks =
        shrink_loop cfg ?high nr_to_scan 0 pool ks"
      using False by (simp add: ion_page_pool_shrink_def Let_def)
    ultimately show ?thesis
      using pool_after_evictions_wf[OF assms, of k ?high] by simp
  qed
  from a b c d show ?thesis by blast
qed

theorem pool_wf_is_preserved_witness:
  "pool_wf example_full_pool
   \<and> pool_wf (fst (ion_page_pool_free example_mm_config example_full_pool (low_page 9)
                    example_full_kstate))
   \<and> (\<exists>n pool3 ks3.
         ion_page_pool_shrink example_mm_config kswapd_task example_full_pool 0 100
           example_full_kstate = Inr (n, pool3, ks3)
         \<and> pool_wf pool3)"
proof -
  have wf: "pool_wf example_full_pool"
    by (simp add: pool_wf_def example_full_pool_def)
  have room: "Suc (length (high_items example_full_pool)) < 2 ^ 32"
    "Suc (length (low_items example_full_pool)) < 2 ^ 32"
    by (simp_all add: example_full_pool_def)
  from pool_wf_is_preserved [OF wf, of example_mm_config "low_page 9" example_full_kstate
         kswapd_task _ _ _ _ _ _ _ _ _ 0 100] wf room
  show ?thesis by simp
qed

end
